theory Spec2Isabelle
  imports Complex_Main "HOL-Library.Word"
begin

section \<open>Exact durations (duration.hpp)\<close>

text \<open>
  \<^verbatim>\<open>struct duration : rational<std::uint32_t>\<close>: numerator and denominator are the
  template's \<^verbatim>\<open>integer\<close>, here an unsigned 32-bit machine integer whose
  multiplication and addition wrap around.
\<close>

type_synonym integer = "32 word"

datatype duration = Duration (num: integer) (den: integer)

text \<open>
  The exceptions of the library and the two ways in which the arithmetic of
  \<^verbatim>\<open>duration::operator+\<close> can stop: its \<^verbatim>\<open>assert\<close> and an integer division by
  zero. \<^verbatim>\<open>invalid_tuplet\<close> is thrown with a formatted message; the error value
  carries the arguments of the format string (the ratio, the inner duration and the
  outer fraction). \<^verbatim>\<open>RuntimeError\<close> is \<^verbatim>\<open>std::runtime_error\<close> with its message.
  \<^verbatim>\<open>ZeroDenominator\<close> is the failure of the construction of a fraction,
  \<^verbatim>\<open>LengthError\<close> the \<^verbatim>\<open>std::length_error\<close> of a string resized beyond its maximal size.
\<close>

datatype error =
    InvalidValue string
  | InvalidBeam string
  | InvalidTuplet integer integer duration duration
  | RuntimeError string
  | AssertionFailure
  | DivisionByZero
  | ZeroDenominator
  | LengthError

text \<open>Sequencing of computations that may throw: the first error ends the computation.\<close>

definition and_then :: "error + 'a \<Rightarrow> ('a \<Rightarrow> error + 'b) \<Rightarrow> error + 'b" where
  "and_then r f = (case r of Inl e \<Rightarrow> Inl e | Inr x \<Rightarrow> f x)"

text \<open>
  Modelled from the spec: the constructor of \<^verbatim>\<open>rational<T>\<close> (rational.hpp is not
  among the sources). ``construct(num, den) fails if den == 0''.
\<close>

definition rational :: "integer \<Rightarrow> integer \<Rightarrow> error + duration" where
  "rational n d = (if d = 0 then Inl ZeroDenominator else Inr (Duration n d))"

text \<open>
  Modelled from the spec: \<^verbatim>\<open>compute_gcd\<close> of rational.hpp, the greatest common divisor
  of two unsigned integers (``g = gcd(den1, den2)'').
\<close>

definition compute_gcd :: "integer \<Rightarrow> integer \<Rightarrow> integer" where
  "compute_gcd a b = of_nat (gcd (unat a) (unat b))"

text \<open>Unsigned division of the machine; a zero divisor stops the program.\<close>

definition udiv :: "integer \<Rightarrow> integer \<Rightarrow> error + integer" where
  "udiv a b = (if b = 0 then Inl DivisionByZero else Inr (a div b))"

text \<open>
  \<^verbatim>\<open>duration operator+(duration const &d2) const\<close>:
  \<^verbatim>\<open>
    assert(d2.den() > 0);
    integer gcd = compute_gcd(den(), d2.den());
    integer d = (den() * d2.den()) / gcd;
    integer n = (num() * d) / den() + (d2.num() * d) / d2.den();
    return { n, d };
  \<close>
\<close>

definition duration_add :: "duration \<Rightarrow> duration \<Rightarrow> error + duration" where
  "duration_add d1 d2 =
     (if \<not> 0 < den d2 then Inl AssertionFailure
      else
        and_then (udiv (den d1 * den d2) (compute_gcd (den d1) (den d2))) (\<lambda>d.
        and_then (udiv (num d1 * d) (den d1)) (\<lambda>a.
        and_then (udiv (num d2 * d) (den d2)) (\<lambda>b.
        rational (a + b) d))))"

definition zero :: duration where
  "zero = Duration 0 1"

section \<open>Rhythmic values and pitches\<close>

text \<open>
  Modelled from the spec: the type \<^verbatim>\<open>stan::value\<close> (value.hpp is not among the sources).
  ``A rhythmic base duration selected from the enumerated set {1,2,4,8,16,32,64}
  (denominator of a whole-note fraction) plus an explicit dot count in {0,1,2}'',
  ``tracked both as an exact Duration-convertible fraction and as a separate dot-count''.
  The debug writer reads the fraction's denominator \<^verbatim>\<open>den()\<close> and the count \<^verbatim>\<open>dots()\<close>.
\<close>

datatype note_value = NoteValue (vnum: nat) (vden: nat) (dots: nat)

definition whole :: note_value where
  "whole = NoteValue 1 1 0"

definition half :: note_value where
  "half = NoteValue 1 2 0"

definition quarter :: note_value where
  "quarter = NoteValue 1 4 0"

definition eighth :: note_value where
  "eighth = NoteValue 1 8 0"

definition sixteenth :: note_value where
  "sixteenth = NoteValue 1 16 0"

definition thirtysecond :: note_value where
  "thirtysecond = NoteValue 1 32 0"

definition sixtyfourth :: note_value where
  "sixtyfourth = NoteValue 1 64 0"

text \<open>
  Modelled from the spec: the dot extension (value.hpp). ``One dot = 1.5 times, two dots
  = 1.75 times the undotted duration'': \<open>n/d\<close> becomes \<open>(2n+1)/(2d)\<close>, and the dot count
  grows by one.
\<close>

definition dot :: "note_value \<Rightarrow> note_value" where
  "dot v = NoteValue (2 * vnum v + 1) (2 * vden v) (dots v + 1)"

text \<open>
  Modelled from the spec: the table \<^verbatim>\<open>value::all\<close> (value.hpp). ``All seven base
  durations times three dot counts = 21 entries''; the spec leaves the order open, here
  longest base first and, for each base, by dot count.
\<close>

definition value_all :: "note_value list" where
  "value_all = concat (map (\<lambda>v. [v, dot v, dot (dot v)])
     [whole, half, quarter, eighth, sixteenth, thirtysecond, sixtyfourth])"

text \<open>
  Modelled from the spec: the conversion of a value to a duration (``exact'') and the
  order of values (``ordered by its converted Duration'', compared ``by
  cross-multiplication'').
\<close>

definition to_duration :: "note_value \<Rightarrow> duration" where
  "to_duration v = Duration (of_nat (vnum v)) (of_nat (vden v))"

definition value_gt :: "note_value \<Rightarrow> note_value \<Rightarrow> bool" where
  "value_gt a b \<longleftrightarrow> vnum b * vden a < vnum a * vden b"

text \<open>
  The enumeration \<^verbatim>\<open>stan::pitchclass\<close>, with the enumerators that the grammar's symbol
  table names (\<^verbatim>\<open>pc::aff\<close> ... \<^verbatim>\<open>pc::gss\<close>), and a pitch
  \<^verbatim>\<open>pitch{ pitchclass, octave }\<close>. An octave is a small unsigned number.
\<close>

datatype pitchclass =
    pc_aff | pc_af | pc_a | pc_as | pc_ass
  | pc_bff | pc_bf | pc_b | pc_bs | pc_bss
  | pc_cff | pc_cf | pc_c | pc_cs | pc_css
  | pc_dff | pc_df | pc_d | pc_ds | pc_dss
  | pc_eff | pc_ef | pc_e | pc_es | pc_ess
  | pc_fff | pc_ff | pc_f | pc_fs | pc_fss
  | pc_gff | pc_gf | pc_g | pc_gs | pc_gss

datatype pitch = Pitch (m_pitchclass: pitchclass) (m_octave: nat)

section \<open>Columns (column.cpp)\<close>

text \<open>
  \<^verbatim>\<open>stan::column\<close> is a variant over \<^verbatim>\<open>rest\<close>, \<^verbatim>\<open>note\<close>, \<^verbatim>\<open>chord\<close>, \<^verbatim>\<open>beam\<close> and
  \<^verbatim>\<open>tuplet\<close>. The fields are those the sources read: \<^verbatim>\<open>m_value\<close>, \<^verbatim>\<open>m_pitch\<close>,
  \<^verbatim>\<open>m_pitches\<close> and \<^verbatim>\<open>m_elements\<close>, in the order of the constructor calls
  \<^verbatim>\<open>note{ value, pitch }\<close>, \<^verbatim>\<open>chord{ value, pitches }\<close>, \<^verbatim>\<open>beam{ elements }\<close> and
  \<^verbatim>\<open>tuplet{ v.m_value, elements }\<close>.
\<close>

datatype column =
    Rest note_value
  | Note note_value pitch
  | Chord note_value "pitch list"
  | Beam "column list"
  | Tuplet note_value "column list"

text \<open>
  The visitor \<^verbatim>\<open>is_valid\<close> of \<^verbatim>\<open>beam::validate\<close>: the message of a member's violation,
  the empty string when there is none.
\<close>

fun is_valid :: "nat \<Rightarrow> column \<Rightarrow> string" where
  "is_valid m_numelements (Rest v) = ''cannot contain rests''"
| "is_valid m_numelements (Note v p) =
     (if value_gt v quarter then ''cannot hold whole or half notes''
      else if m_numelements < 2 then ''must contain at least two values''
      else [])"
| "is_valid m_numelements (Chord v ps) =
     (if value_gt v quarter then ''cannot hold whole or half notes''
      else if m_numelements < 2 then ''must contain at least two values''
      else [])"
| "is_valid m_numelements (Beam es) =
     (if m_numelements < 2 then ''nested beams must contain at least two values''
      else [])"
| "is_valid m_numelements (Tuplet v es) =
     (if value_gt v quarter then ''cannot hold whole or half note tuplets''
      else [])"

text \<open>
  \<^verbatim>\<open>std::for_each\<close> over the members, with the lambda that throws \<^verbatim>\<open>invalid_beam\<close> at
  a non-empty message.
\<close>

fun for_each_valid :: "nat \<Rightarrow> column list \<Rightarrow> error + unit" where
  "for_each_valid numelements [] = Inr ()"
| "for_each_valid numelements (c # cs) =
     (if is_valid numelements c \<noteq> [] then Inl (InvalidBeam (is_valid numelements c))
      else for_each_valid numelements cs)"

definition beam_validate :: "column list \<Rightarrow> error + unit" where
  "beam_validate m_elements = for_each_valid (length m_elements) m_elements"

text \<open>\<^verbatim>\<open>tuplet::validate\<close>.\<close>

definition tuplet_validate :: "column list \<Rightarrow> error + unit" where
  "tuplet_validate m_elements =
     (if length m_elements < 2
      then Inl (InvalidValue ''tuplet must contain at least two elements'')
      else Inr ())"

text \<open>
  Modelled from the spec: the constructors of \<^verbatim>\<open>beam\<close> and \<^verbatim>\<open>tuplet\<close> (column.hpp is
  not among the sources). ``Building a Beam or Tuplet always invokes its validate()
  before the object is usable''; building a rest, a note or a chord is unconditional.
\<close>

definition beam :: "column list \<Rightarrow> error + column" where
  "beam elements = and_then (beam_validate elements) (\<lambda>_. Inr (Beam elements))"

definition tuplet :: "note_value \<Rightarrow> column list \<Rightarrow> error + column" where
  "tuplet v elements = and_then (tuplet_validate elements) (\<lambda>_. Inr (Tuplet v elements))"

text \<open>
  The visitor \<^verbatim>\<open>get_duration\<close>, \<^verbatim>\<open>std::accumulate\<close> over a beam's members with the lambda
  \<^verbatim>\<open>res + p\<close>, and \<^verbatim>\<open>operator+(duration const &, column const &)\<close>, which that lambda
  calls.
\<close>

fun get_duration :: "column \<Rightarrow> error + duration"
  and accumulate :: "column list \<Rightarrow> duration \<Rightarrow> error + duration"
  and duration_plus_column :: "duration \<Rightarrow> column \<Rightarrow> error + duration" where
  "get_duration (Rest v) = Inr (to_duration v)"
| "get_duration (Note v p) = Inr (to_duration v)"
| "get_duration (Chord v ps) = Inr (to_duration v)"
| "get_duration (Beam es) = accumulate es zero"
| "get_duration (Tuplet v es) = Inr (to_duration v)"
| "accumulate [] res = Inr res"
| "accumulate (p # ps) res = and_then (duration_plus_column res p) (accumulate ps)"
| "duration_plus_column d c = and_then (get_duration c) (duration_add d)"

section \<open>Deep copy (copy.cpp, column.cpp)\<close>


text \<open>\<^verbatim>\<open>copy_variant\<close> of column.cpp, the same visitor under another name.\<close>

fun copy_variant :: "column \<Rightarrow> error + column"
  and transform_variant :: "column list \<Rightarrow> error + column list" where
  "copy_variant (Rest v) = Inr (Rest v)"
| "copy_variant (Note v p) = Inr (Note v p)"
| "copy_variant (Chord v ps) = Inr (Chord v ps)"
| "copy_variant (Beam es) = and_then (transform_variant es) beam"
| "copy_variant (Tuplet v es) = and_then (transform_variant es) (tuplet v)"
| "transform_variant [] = Inr []"
| "transform_variant (c # cs) =
     and_then (copy_variant c) (\<lambda>c'.
     and_then (transform_variant cs) (\<lambda>cs'. Inr (c' # cs')))"

text \<open>
  A column all of whose beams and tuplets, at every depth, pass their \<^verbatim>\<open>validate()\<close>:
  the columns that the validating constructors can build.
\<close>

fun constructible :: "column \<Rightarrow> bool"
  and constructible_all :: "column list \<Rightarrow> bool" where
  "constructible (Rest v) = True"
| "constructible (Note v p) = True"
| "constructible (Chord v ps) = True"
| "constructible (Beam es) = (beam_validate es = Inr () \<and> constructible_all es)"
| "constructible (Tuplet v es) = (tuplet_validate es = Inr () \<and> constructible_all es)"
| "constructible_all [] = True"
| "constructible_all (c # cs) = (constructible c \<and> constructible_all cs)"








text \<open>
  The rules of beam membership in the words of the spec (section 4.4), for a member of
  a beam with \<open>n\<close> members.
\<close>

definition membership_violation :: "nat \<Rightarrow> column \<Rightarrow> bool" where
  "membership_violation n c =
     (case c of
        Rest v \<Rightarrow> True
      | Note v p \<Rightarrow> value_gt v quarter \<or> n < 2
      | Chord v ps \<Rightarrow> value_gt v quarter \<or> n < 2
      | Beam es \<Rightarrow> n < 2
      | Tuplet v es \<Rightarrow> value_gt v quarter)"

section \<open>Tuplet scaling (column.cpp)\<close>

text \<open>
  The loop of \<^verbatim>\<open>tuplet::scale\<close> over \<^verbatim>\<open>value::all\<close>, which returns at the first entry
  with \<^verbatim>\<open>outer == static_cast<duration>(val)\<close>. The comparison \<^verbatim>\<open>operator==\<close> of two
  fractions is declared in rational.hpp, which is not among the sources, and the spec
  describes it in two ways (structural equality in section 3, cross-multiplication in
  section 4.1): it is the parameter \<open>eq\<close> of the loop and of \<^verbatim>\<open>scale\<close>.
\<close>

fun first_match ::
  "(duration \<Rightarrow> duration \<Rightarrow> bool) \<Rightarrow> duration \<Rightarrow> note_value list \<Rightarrow> note_value option" where
  "first_match eq outer [] = None"
| "first_match eq outer (v # vs) =
     (if eq outer (to_duration v) then Some v else first_match eq outer vs)"

text \<open>
  \<^verbatim>\<open>value tuplet::scale(int num, int den, const duration &inner)\<close>. The two \<^verbatim>\<open>int\<close>
  arguments are converted to the unsigned type of the other factor before the
  multiplication, which keeps their 32 bits; they are given here as those 32 bits.
\<close>

definition tuplet_scale ::
  "(duration \<Rightarrow> duration \<Rightarrow> bool) \<Rightarrow> integer \<Rightarrow> integer \<Rightarrow> duration \<Rightarrow> error + note_value" where
  "tuplet_scale eq n d inner =
     and_then (rational (num inner * d) (den inner * n)) (\<lambda>outer.
       case first_match eq outer value_all of
         Some v \<Rightarrow> Inr v
       | None \<Rightarrow> Inl (InvalidTuplet n d inner outer))"

text \<open>\<^verbatim>\<open>value tuplet::scale(int num, int den, const value &inner)\<close>.\<close>

definition tuplet_scale_value ::
  "(duration \<Rightarrow> duration \<Rightarrow> bool) \<Rightarrow> integer \<Rightarrow> integer \<Rightarrow> note_value \<Rightarrow> error + note_value" where
  "tuplet_scale_value eq n d inner = tuplet_scale eq n d (to_duration inner)"

section \<open>The grammar and the parser\<close>

text \<open>
  The skipper \<^verbatim>\<open>x3::space\<close>: the six white-space characters of the C locale.
  \<^verbatim>\<open>phrase_parse\<close> skips them before every primitive parser (a literal, a character,
  a symbol table) and once more after the grammar.
\<close>

definition is_space :: "char \<Rightarrow> bool" where
  "is_space c \<longleftrightarrow> c = CHR '' '' \<or> c = CHR 0x09 \<or> c = CHR 0x0A \<or> c = CHR 0x0B \<or>
     c = CHR 0x0C \<or> c = CHR 0x0D"

definition skip_over :: "string \<Rightarrow> string" where
  "skip_over s = dropWhile is_space s"

text \<open>
  A literal character, \<^verbatim>\<open>x3::lit('r')\<close> or \<^verbatim>\<open>char_(",")\<close>: after the skipper, the next
  character must be the given one. A parser that fails leaves the input where the
  enclosing alternative or repetition started, up to white space, which every later
  parser skips again.
\<close>

definition lit :: "char \<Rightarrow> string \<Rightarrow> string option" where
  "lit c s =
     (case skip_over s of
        [] \<Rightarrow> None
      | x # r \<Rightarrow> if x = c then Some r else None)"

text \<open>
  \<^verbatim>\<open>x3::symbols\<close>: the entry whose key is the longest prefix of the input.
\<close>

fun tst_find :: "(string \<times> 'a) list \<Rightarrow> string \<Rightarrow> (string \<times> 'a) option" where
  "tst_find [] s = None"
| "tst_find ((k, a) # t) s =
     (case tst_find t s of
        None \<Rightarrow> if take (length k) s = k then Some (k, a) else None
      | Some (k', a') \<Rightarrow>
          if take (length k) s = k \<and> length k' < length k then Some (k, a) else Some (k', a'))"

definition symbols :: "(string \<times> 'a) list \<Rightarrow> string \<Rightarrow> ('a \<times> string) option" where
  "symbols table s =
     (case tst_find table (skip_over s) of
        None \<Rightarrow> None
      | Some (k, a) \<Rightarrow> Some (a, drop (length k) (skip_over s)))"

text \<open>
  The symbol tables \<^verbatim>\<open>pitchclass_\<close> and \<^verbatim>\<open>basevalue_\<close> of the grammar.
\<close>

definition pitchclass_symbols :: "(string \<times> pitchclass) list" where
  "pitchclass_symbols =
    [(''aff'', pc_aff), (''af'', pc_af), (''a'', pc_a), (''as'', pc_as), (''ass'', pc_ass),
     (''bff'', pc_bff), (''bf'', pc_bf), (''b'', pc_b), (''bs'', pc_bs), (''bss'', pc_bss),
     (''cff'', pc_cff), (''cf'', pc_cf), (''c'', pc_c), (''cs'', pc_cs), (''css'', pc_css),
     (''dff'', pc_dff), (''df'', pc_df), (''d'', pc_d), (''ds'', pc_ds), (''dss'', pc_dss),
     (''eff'', pc_eff), (''ef'', pc_ef), (''e'', pc_e), (''es'', pc_es), (''ess'', pc_ess),
     (''fff'', pc_fff), (''ff'', pc_ff), (''f'', pc_f), (''fs'', pc_fs), (''fss'', pc_fss),
     (''gff'', pc_gff), (''gf'', pc_gf), (''g'', pc_g), (''gs'', pc_gs), (''gss'', pc_gss)]"

definition basevalue :: "(string \<times> note_value) list" where
  "basevalue =
    [(''1'', whole), (''2'', half), (''4'', quarter), (''8'', eighth),
     (''16'', sixteenth), (''32'', thirtysecond), (''64'', sixtyfourth)]"

text \<open>
  \<^verbatim>\<open>x3::repeat(min, max)[char_(c)]\<close>: up to \<open>max\<close> occurrences of the character; the number
  matched and the rest of the input. The callers check the minimum.
\<close>

fun repeat_lit :: "nat \<Rightarrow> char \<Rightarrow> string \<Rightarrow> nat \<times> string" where
  "repeat_lit 0 c s = (0, s)"
| "repeat_lit (Suc k) c s =
     (case lit c s of
        None \<Rightarrow> (0, s)
      | Some r \<Rightarrow> (case repeat_lit k c r of (n, r') \<Rightarrow> (Suc n, r')))"

text \<open>
  \<^verbatim>\<open>poctave_def\<close>: one to three quotes raise the octave from 4, one to four commas lower
  it, and \<^verbatim>\<open>eps\<close> leaves it at 4.
\<close>

definition poctave :: "string \<Rightarrow> nat \<times> string" where
  "poctave s =
     (case repeat_lit 3 (CHR 0x27) s of
        (Suc k, r) \<Rightarrow> (4 + Suc k, r)
      | (0, _) \<Rightarrow>
          (case repeat_lit 4 (CHR '','') s of
             (Suc k, r) \<Rightarrow> (4 - Suc k, r)
           | (0, _) \<Rightarrow> (4, s)))"

text \<open>
  \<^verbatim>\<open>ppitch_def = (pitchclass >> poctave)[construct<stan::pitch, 0, 1>()]\<close>.
\<close>

definition ppitch :: "string \<Rightarrow> (pitch \<times> string) option" where
  "ppitch s =
     (case symbols pitchclass_symbols s of
        None \<Rightarrow> None
      | Some (pc, r) \<Rightarrow> (case poctave r of (oct, r') \<Rightarrow> Some (Pitch pc oct, r')))"

text \<open>
  \<^verbatim>\<open>pvalue_def = basevalue[construct<stan::value>()] >> x3::repeat(0, 2)[lit('.')[add_dot]]\<close>:
  every dot matched applies \<^verbatim>\<open>dot\<close> to the value.
\<close>

definition pvalue :: "string \<Rightarrow> (note_value \<times> string) option" where
  "pvalue s =
     (case symbols basevalue s of
        None \<Rightarrow> None
      | Some (v, r) \<Rightarrow> (case repeat_lit 2 (CHR ''.'') r of (k, r') \<Rightarrow> Some ((dot ^^ k) v, r')))"

text \<open>
  \<^verbatim>\<open>prest_def = x3::lit('r') >> pvalue[construct<stan::rest>()]\<close>.
\<close>

definition prest :: "string \<Rightarrow> (column \<times> string) option" where
  "prest s =
     (case lit (CHR ''r'') s of
        None \<Rightarrow> None
      | Some r \<Rightarrow> (case pvalue r of None \<Rightarrow> None | Some (v, r') \<Rightarrow> Some (Rest v, r')))"

text \<open>
  \<^verbatim>\<open>pnote_def = (ppitch >> pvalue)[construct<stan::note, 1, 0>()]\<close>.
\<close>

definition pnote :: "string \<Rightarrow> (column \<times> string) option" where
  "pnote s =
     (case ppitch s of
        None \<Rightarrow> None
      | Some (p, r) \<Rightarrow> (case pvalue r of None \<Rightarrow> None | Some (v, r') \<Rightarrow> Some (Note v p, r')))"

text \<open>
  Every parser of the grammar but \<^verbatim>\<open>poctave\<close> consumes at least one character; this is
  what makes the repetitions \<^verbatim>\<open>+ppitch\<close> and \<^verbatim>\<open>+column\<close> end.
\<close>

lemma skip_over_length: "length (skip_over s) \<le> length s"
  by (simp add: skip_over_def length_dropWhile_le)

lemma lit_shorter: "lit c s = Some r \<Longrightarrow> length r < length s"
  using skip_over_length [of s]
  by (auto simp: lit_def split: list.splits if_splits)

lemma repeat_lit_length: "repeat_lit k c s = (n, r) \<Longrightarrow> length r \<le> length s"
proof (induction k arbitrary: s n r)
  case 0
  then show ?case by simp
next
  case (Suc k)
  show ?case
  proof (cases "lit c s")
    case None
    with Suc.prems show ?thesis by simp
  next
    case (Some r0)
    obtain n' r' where rec: "repeat_lit k c r0 = (n', r')"
      by (cases "repeat_lit k c r0")
    from Suc.IH [OF rec] lit_shorter [OF Some] Suc.prems Some rec show ?thesis
      by simp
  qed
qed

lemma tst_find_key:
  "tst_find t s = Some (k, a) \<Longrightarrow> (k, a) \<in> set t \<and> take (length k) s = k"
  by (induction t arbitrary: k a) (auto split: option.splits if_splits)

lemma symbols_shorter:
  assumes "symbols t s = Some (a, r)" and "\<forall>(k, a) \<in> set t. k \<noteq> []"
  shows "length r < length s"
proof -
  from assms(1) obtain k where f: "tst_find t (skip_over s) = Some (k, a)"
    and r: "r = drop (length k) (skip_over s)"
    by (auto simp: symbols_def split: option.splits)
  from tst_find_key [OF f] assms(2) have "k \<noteq> []" and t: "take (length k) (skip_over s) = k"
    by auto
  from t have "length k \<le> length (skip_over s)"
    by (metis length_take min.cobounded1)
  with \<open>k \<noteq> []\<close> r skip_over_length [of s] show ?thesis
    by (cases k) auto
qed

lemma poctave_length: "poctave s = (n, r) \<Longrightarrow> length r \<le> length s"
  by (auto simp: poctave_def split: prod.splits nat.splits dest: repeat_lit_length)

lemma ppitch_shorter: "ppitch s = Some (p, r) \<Longrightarrow> length r < length s"
proof -
  assume a: "ppitch s = Some (p, r)"
  then obtain pc r0 oct where s: "symbols pitchclass_symbols s = Some (pc, r0)"
    and o: "poctave r0 = (oct, r)"
    by (auto simp: ppitch_def split: option.splits prod.splits)
  have "length r0 < length s"
    by (rule symbols_shorter [OF s]) (simp add: pitchclass_symbols_def)
  with poctave_length [OF o] show ?thesis by simp
qed

lemma pvalue_shorter: "pvalue s = Some (v, r) \<Longrightarrow> length r < length s"
proof -
  assume a: "pvalue s = Some (v, r)"
  then obtain b r0 k where s: "symbols basevalue s = Some (b, r0)"
    and o: "repeat_lit 2 (CHR ''.'') r0 = (k, r)"
    by (auto simp: pvalue_def split: option.splits prod.splits)
  have "length r0 < length s"
    by (rule symbols_shorter [OF s]) (simp add: basevalue_def)
  with repeat_lit_length [OF o] show ?thesis by simp
qed

text \<open>
  The loop of \<^verbatim>\<open>+ppitch\<close>: pitches as long as \<^verbatim>\<open>ppitch\<close> matches.
\<close>

function many_pitch :: "string \<Rightarrow> pitch list \<times> string" where
  "many_pitch s =
     (case ppitch s of
        None \<Rightarrow> ([], s)
      | Some (p, r) \<Rightarrow> (case many_pitch r of (ps, r') \<Rightarrow> (p # ps, r')))"
  by pat_completeness auto
termination
  by (relation "measure length") (auto dest: ppitch_shorter)

declare many_pitch.simps [simp del]

text \<open>
  \<^verbatim>\<open>pchord_def = ('<' >> +ppitch >> '>' >> pvalue)[construct<stan::chord, 1, 0>()]\<close>.
\<close>

definition pchord :: "string \<Rightarrow> (column \<times> string) option" where
  "pchord s =
     (case lit (CHR ''<'') s of
        None \<Rightarrow> None
      | Some r1 \<Rightarrow>
          (case many_pitch r1 of
             ([], _) \<Rightarrow> None
           | (p # ps, r2) \<Rightarrow>
               (case lit (CHR ''>'') r2 of
                  None \<Rightarrow> None
                | Some r3 \<Rightarrow>
                    (case pvalue r3 of
                       None \<Rightarrow> None
                     | Some (v, r4) \<Rightarrow> Some (Chord v (p # ps), r4)))))"

text \<open>
  \<^verbatim>\<open>construct<stan::column>\<close>, the semantic action of \<^verbatim>\<open>column_def\<close>: the matched
  alternative is copied with \<^verbatim>\<open>copy_variant\<close>. A parser over columns either throws
  (\<open>Inl\<close>), does not match (\<open>Inr None\<close>) or yields a column and the rest of the input.
\<close>

definition construct_column :: "(column \<times> string) option \<Rightarrow> error + (column \<times> string) option" where
  "construct_column a =
     (case a of
        None \<Rightarrow> Inr None
      | Some (v, r) \<Rightarrow> and_then (copy_variant v) (\<lambda>c. Inr (Some (c, r))))"

text \<open>
  \<^verbatim>\<open>column_def = (prest | pnote | pchord | pbeam)[construct<stan::column>()]\<close>,
  \<^verbatim>\<open>pbeam_def = '[' >> (+column)[construct<stan::beam>()] >> ']'\<close> and the loop of
  \<^verbatim>\<open>+column\<close>, which does not match when it finds no column. The action of \<^verbatim>\<open>pbeam\<close>
  constructs the beam, which validates it, before the closing bracket is looked for; an
  exception of the constructor leaves the parser. The loop continues only after a
  column that consumed input, which every column does (lemma \<open>column_p_shorter\<close>
  below), so the test never fails (lemma \<open>many_column_unguarded\<close>).
\<close>

function column_p :: "string \<Rightarrow> error + (column \<times> string) option"
  and pbeam :: "string \<Rightarrow> error + (column \<times> string) option"
  and many_column :: "string \<Rightarrow> error + column list \<times> string" where
  "column_p s =
     (case prest s of
        Some a \<Rightarrow> construct_column (Some a)
      | None \<Rightarrow>
          (case pnote s of
             Some a \<Rightarrow> construct_column (Some a)
           | None \<Rightarrow>
               (case pchord s of
                  Some a \<Rightarrow> construct_column (Some a)
                | None \<Rightarrow> and_then (pbeam s) construct_column)))"
| "pbeam s =
     (case lit (CHR ''['') s of
        None \<Rightarrow> Inr None
      | Some r1 \<Rightarrow>
          and_then (many_column r1) (\<lambda>(cs, r2).
            if cs = [] then Inr None
            else
              and_then (beam cs) (\<lambda>b.
                case lit (CHR '']'') r2 of
                  None \<Rightarrow> Inr None
                | Some r3 \<Rightarrow> Inr (Some (b, r3)))))"
| "many_column s =
     and_then (column_p s) (\<lambda>a.
       case a of
         None \<Rightarrow> Inr ([], s)
       | Some (c, r) \<Rightarrow>
           if length r < length s
           then and_then (many_column r) (\<lambda>(cs, r'). Inr (c # cs, r'))
           else Inr ([c], r))"
  by pat_completeness auto
termination
  by (relation "measure (\<lambda>x. case x of
        Inl s \<Rightarrow> 3 * length s + 2
      | Inr (Inl s) \<Rightarrow> 3 * length s + 1
      | Inr (Inr s) \<Rightarrow> 3 * length s + 3)")
    (auto dest: lit_shorter)

declare column_p.simps [simp del] pbeam.simps [simp del] many_column.simps [simp del]

text \<open>
  \<^verbatim>\<open>stan::column parse(const std::string &lily)\<close>: \<^verbatim>\<open>phrase_parse\<close> with the rule
  \<^verbatim>\<open>column\<close> and the skipper; the iterator is compared with the end after the final
  skip.
\<close>

definition parse :: "string \<Rightarrow> error + column" where
  "parse lily =
     (case column_p lily of
        Inl e \<Rightarrow> Inl e
      | Inr None \<Rightarrow> Inl (RuntimeError ''parse error'')
      | Inr (Some (music, r)) \<Rightarrow>
          if skip_over r \<noteq> [] then Inl (RuntimeError ''incomplete parse'')
          else copy_variant music)"

section \<open>The debug writer (debug_writer.cpp)\<close>

text \<open>
  \<^verbatim>\<open>std::to_string\<close> of an unsigned number: its decimal digits.
\<close>

definition digit :: "nat \<Rightarrow> char" where
  "digit d = ''0123456789'' ! d"

function to_string :: "nat \<Rightarrow> string" where
  "to_string n = (if n < 10 then [digit n] else to_string (n div 10) @ [digit (n mod 10)])"
  by pat_completeness auto
termination
  by (relation "measure id") auto

declare to_string.simps [simp del]

text \<open>
  Modelled from the spec: the map \<^verbatim>\<open>pitchclass_names\<close> of the debug driver (its header
  is not among the sources), the ``35 fixed spelling strings'' of the pitch classes.
\<close>

fun pitchclass_names :: "pitchclass \<Rightarrow> string" where
  "pitchclass_names pc_aff = ''aff''" | "pitchclass_names pc_af = ''af''"
| "pitchclass_names pc_a = ''a''" | "pitchclass_names pc_as = ''as''"
| "pitchclass_names pc_ass = ''ass''"
| "pitchclass_names pc_bff = ''bff''" | "pitchclass_names pc_bf = ''bf''"
| "pitchclass_names pc_b = ''b''" | "pitchclass_names pc_bs = ''bs''"
| "pitchclass_names pc_bss = ''bss''"
| "pitchclass_names pc_cff = ''cff''" | "pitchclass_names pc_cf = ''cf''"
| "pitchclass_names pc_c = ''c''" | "pitchclass_names pc_cs = ''cs''"
| "pitchclass_names pc_css = ''css''"
| "pitchclass_names pc_dff = ''dff''" | "pitchclass_names pc_df = ''df''"
| "pitchclass_names pc_d = ''d''" | "pitchclass_names pc_ds = ''ds''"
| "pitchclass_names pc_dss = ''dss''"
| "pitchclass_names pc_eff = ''eff''" | "pitchclass_names pc_ef = ''ef''"
| "pitchclass_names pc_e = ''e''" | "pitchclass_names pc_es = ''es''"
| "pitchclass_names pc_ess = ''ess''"
| "pitchclass_names pc_fff = ''fff''" | "pitchclass_names pc_ff = ''ff''"
| "pitchclass_names pc_f = ''f''" | "pitchclass_names pc_fs = ''fs''"
| "pitchclass_names pc_fss = ''fss''"
| "pitchclass_names pc_gff = ''gff''" | "pitchclass_names pc_gf = ''gf''"
| "pitchclass_names pc_g = ''g''" | "pitchclass_names pc_gs = ''gs''"
| "pitchclass_names pc_gss = ''gss''"

text \<open>
  \<^verbatim>\<open>writer::operator()(value const &)\<close>: the base value \<^verbatim>\<open>v.den() / (1u << v.dots())\<close>
  and one full stop for every dot.
\<close>

definition write_value :: "note_value \<Rightarrow> string" where
  "write_value v = to_string (vden v div 2 ^ dots v) @ replicate (dots v) (CHR ''.'')"

text \<open>
  \<^verbatim>\<open>writer::operator()(pitch const &)\<close>: the name of the pitch class and the octave, cast
  to \<^verbatim>\<open>std::uint8_t\<close>, as a decimal number.
\<close>

definition write_pitch :: "pitch \<Rightarrow> string" where
  "write_pitch r = pitchclass_names (m_pitchclass r) @ to_string (m_octave r mod 256)"

text \<open>
  \<^verbatim>\<open>s.resize(s.size() - 1)\<close>, which removes the final separator; on the empty string
  the new size wraps around and \<^verbatim>\<open>resize\<close> throws.
\<close>

definition resize_minus_one :: "string \<Rightarrow> error + string" where
  "resize_minus_one s = (if s = [] then Inl LengthError else Inr (butlast s))"

text \<open>
  The writers of a rest, a note, a chord, a beam and a tuplet (debug_writer.cpp), and
  \<^verbatim>\<open>std::accumulate\<close> over the elements of a beam or tuplet with the lambda
  \<^verbatim>\<open>res + write(p) + " "\<close>.
\<close>

fun writer :: "column \<Rightarrow> error + string"
  and writer_elements :: "column list \<Rightarrow> string \<Rightarrow> error + string" where
  "writer (Rest v) = Inr (''r:'' @ write_value v)"
| "writer (Note v p) = Inr (write_pitch p @ '':'' @ write_value v)"
| "writer (Chord v ps) =
     and_then (resize_minus_one (foldl (\<lambda>res p. res @ write_pitch p @ '' '') [] ps))
       (\<lambda>pitches. Inr (''<'' @ pitches @ ''>:'' @ write_value v))"
| "writer (Beam es) =
     and_then (writer_elements es [])
       (\<lambda>acc. and_then (resize_minus_one acc) (\<lambda>elements. Inr (''['' @ elements @ '']'')))"
| "writer (Tuplet v es) =
     and_then (writer_elements es [])
       (\<lambda>acc. and_then (resize_minus_one acc)
          (\<lambda>elements. Inr (write_value v @ '':{'' @ elements @ ''}]'')))"
| "writer_elements [] res = Inr res"
| "writer_elements (p # ps) res = and_then (writer p) (\<lambda>s. writer_elements ps (res @ s @ '' ''))"

text \<open>A column is parsed, written, and the text written is parsed again.\<close>

definition round_trip :: "string \<Rightarrow> error + column" where
  "round_trip text = and_then (parse text) (\<lambda>c. and_then (writer c) parse)"

section \<open>Specification predicates\<close>

text \<open>No tuplet occurs in a column, at any depth.\<close>

fun tuplet_free :: "column \<Rightarrow> bool"
  and tuplet_free_all :: "column list \<Rightarrow> bool" where
  "tuplet_free (Rest v) = True"
| "tuplet_free (Note v p) = True"
| "tuplet_free (Chord v ps) = True"
| "tuplet_free (Beam es) = tuplet_free_all es"
| "tuplet_free (Tuplet v es) = False"
| "tuplet_free_all [] = True"
| "tuplet_free_all (c # cs) = (tuplet_free c \<and> tuplet_free_all cs)"

text \<open>
  The shape of a column that the grammar can produce: octaves between 0 and 7, chords
  and beams with at least one member, no tuplet.
\<close>

fun grammar_shaped :: "column \<Rightarrow> bool"
  and grammar_shaped_all :: "column list \<Rightarrow> bool" where
  "grammar_shaped (Rest v) = True"
| "grammar_shaped (Note v p) = (m_octave p \<le> 7)"
| "grammar_shaped (Chord v ps) = (ps \<noteq> [] \<and> list_all (\<lambda>p. m_octave p \<le> 7) ps)"
| "grammar_shaped (Beam es) = (es \<noteq> [] \<and> grammar_shaped_all es)"
| "grammar_shaped (Tuplet v es) = False"
| "grammar_shaped_all [] = True"
| "grammar_shaped_all (c # cs) = (grammar_shaped c \<and> grammar_shaped_all cs)"

text \<open>What the parser promises of a column it returns.\<close>

definition parsed :: "column \<Rightarrow> bool" where
  "parsed c \<longleftrightarrow> constructible c \<and> tuplet_free c \<and> grammar_shaped c"

text \<open>The decimal digit that the debug writer prints for an octave between 0 and 7.\<close>

definition octave_digit :: "char \<Rightarrow> bool" where
  "octave_digit x \<longleftrightarrow> x \<in> set ''01234567''"

text \<open>
  An outcome of the rule \<open>column\<close> from which \<open>parse\<close> cannot succeed: an exception, no
  match, or a note that leaves a colon as the next character of the input.
\<close>

definition stuck :: "error + (column \<times> string) option \<Rightarrow> bool" where
  "stuck a =
     (case a of
        Inl e \<Rightarrow> True
      | Inr None \<Rightarrow> True
      | Inr (Some (c, r)) \<Rightarrow>
          (case c of Note v p \<Rightarrow> (case r of [] \<Rightarrow> False | x # t \<Rightarrow> x = CHR '':'') | _ \<Rightarrow> False))"

text \<open>The rational number that a duration stands for.\<close>

definition rat_of :: "duration \<Rightarrow> rat" where
  "rat_of d = of_nat (unat (num d)) / of_nat (unat (den d))"

text \<open>
  The two comparisons of fractions that the spec describes: the same numerator and
  denominator, and equal cross products, taken over the natural numbers. A comparison is
  exact (``no tolerance'') when fractions with nonzero denominators that it equates
  stand for the same rational number; both comparisons are.
\<close>

definition structural_eq :: "duration \<Rightarrow> duration \<Rightarrow> bool" where
  "structural_eq a b \<longleftrightarrow> num a = num b \<and> den a = den b"

definition cross_eq :: "duration \<Rightarrow> duration \<Rightarrow> bool" where
  "cross_eq a b \<longleftrightarrow> unat (num a) * unat (den b) = unat (num b) * unat (den a)"

definition exact_comparison :: "(duration \<Rightarrow> duration \<Rightarrow> bool) \<Rightarrow> bool" where
  "exact_comparison eq \<longleftrightarrow>
     (\<forall>a b. eq a b \<and> den a \<noteq> 0 \<and> den b \<noteq> 0 \<longrightarrow> rat_of a = rat_of b)"

text \<open>
  Neither product of \<^verbatim>\<open>tuplet::scale\<close> leaves the range of the 32-bit \<^verbatim>\<open>integer\<close>.
\<close>

definition scale_no_wrap :: "integer \<Rightarrow> integer \<Rightarrow> duration \<Rightarrow> bool" where
  "scale_no_wrap n d inner \<longleftrightarrow>
     unat (num inner) * unat d < 2 ^ 32 \<and> unat (den inner) * unat n < 2 ^ 32"

text \<open>
  The check of the spec's testable property of addition, over the natural numbers:
  \<^verbatim>\<open>sum.num * den1 * den2 == (num1*den2 + num2*den1) * sum.den\<close>.
\<close>

definition exact_sum :: "duration \<Rightarrow> duration \<Rightarrow> duration \<Rightarrow> bool" where
  "exact_sum d1 d2 s \<longleftrightarrow>
     unat (num s) * unat (den d1) * unat (den d2) =
     (unat (num d1) * unat (den d2) + unat (num d2) * unat (den d1)) * unat (den s)"

text \<open>
  None of the three products and neither the sum of \<^verbatim>\<open>operator+\<close> leaves the range
  of the 32-bit \<^verbatim>\<open>integer\<close>.
\<close>

definition no_wrap :: "duration \<Rightarrow> duration \<Rightarrow> bool" where
  "no_wrap d1 d2 \<longleftrightarrow>
     unat (den d1) * unat (den d2) < 2 ^ 32 \<and>
     unat (num d1) * lcm (unat (den d1)) (unat (den d2)) < 2 ^ 32 \<and>
     unat (num d2) * lcm (unat (den d1)) (unat (den d2)) < 2 ^ 32 \<and>
     unat (num d1) * (lcm (unat (den d1)) (unat (den d2)) div unat (den d1)) +
     unat (num d2) * (lcm (unat (den d1)) (unat (den d2)) div unat (den d2)) < 2 ^ 32"

text \<open>
  The running sum of \<^verbatim>\<open>std::accumulate\<close> over the durations \<open>ds\<close>, started at \<open>acc\<close>,
  stays within the 32-bit range at every addition.
\<close>

fun chain_no_wrap :: "duration \<Rightarrow> duration list \<Rightarrow> bool" where
  "chain_no_wrap acc [] = True"
| "chain_no_wrap acc (d # ds) =
     (den d \<noteq> 0 \<and> no_wrap acc d \<and>
      (case duration_add acc d of Inl e \<Rightarrow> False | Inr s \<Rightarrow> chain_no_wrap s ds))"

section \<open>Properties of duration addition\<close>

lemma and_then_Inr [simp]: "and_then (Inr x) f = f x"
  by (simp add: and_then_def)

lemma and_then_Inl [simp]: "and_then (Inl e) f = Inl e"
  by (simp add: and_then_def)

lemma compute_gcd_unat: "unat (compute_gcd a b) = gcd (unat a) (unat b)"
proof -
  have "gcd (unat a) (unat b) \<le> max (unat a) (unat b)"
    by (metis gcd_le1_nat gcd_0_left_nat max.coboundedI1 max.coboundedI2 le_refl)
  moreover have "max (unat a) (unat b) < 2 ^ 32"
    using unsigned_less [of a] unsigned_less [of b] by simp
  ultimately have "gcd (unat a) (unat b) < 2 ^ 32"
    by linarith
  then show ?thesis
    by (simp add: compute_gcd_def unat_of_nat)
qed

lemma compute_gcd_nonzero: "b \<noteq> 0 \<Longrightarrow> compute_gcd a b \<noteq> 0"
proof
  assume b: "b \<noteq> 0" and g: "compute_gcd a b = 0"
  from g have "unat (compute_gcd a b) = 0" by simp
  then have "gcd (unat a) (unat b) = 0" by (simp add: compute_gcd_unat)
  then have "unat b = 0" by simp
  with b show False by (simp add: unat_eq_0)
qed

lemma duration_add_defined:
  assumes "den d1 \<noteq> 0" "den d2 \<noteq> 0"
  shows "duration_add d1 d2 =
     rational ((num d1 * (den d1 * den d2 div compute_gcd (den d1) (den d2))) div den d1 +
               (num d2 * (den d1 * den d2 div compute_gcd (den d1) (den d2))) div den d2)
              (den d1 * den d2 div compute_gcd (den d1) (den d2))"
  using assms compute_gcd_nonzero [of "den d2" "den d1"]
  by (simp add: duration_add_def udiv_def word_greater_zero_iff)

lemma lcm_div_gcd: "(a::nat) * b div gcd a b = lcm a b"
  by (simp add: lcm_nat_def)

lemma mult_lcm_div1: "0 < (b1::nat) \<Longrightarrow> a * lcm b1 b2 div b1 = a * (lcm b1 b2 div b1)"
  by (simp add: div_mult_swap)

lemma mult_lcm_div2: "0 < (b2::nat) \<Longrightarrow> a * lcm b1 b2 div b2 = a * (lcm b1 b2 div b2)"
  by (simp add: div_mult_swap)

lemma duration_add_no_wrap:
  assumes nz: "den d1 \<noteq> 0" "den d2 \<noteq> 0" and nw: "no_wrap d1 d2"
  shows "\<exists>s. duration_add d1 d2 = Inr s \<and>
     unat (den s) = lcm (unat (den d1)) (unat (den d2)) \<and>
     unat (num s) = unat (num d1) * (unat (den s) div unat (den d1)) +
                    unat (num d2) * (unat (den s) div unat (den d2))"
proof -
  let ?b1 = "unat (den d1)" and ?b2 = "unat (den d2)"
  let ?a1 = "unat (num d1)" and ?a2 = "unat (num d2)"
  let ?L = "lcm ?b1 ?b2"
  define d where "d = den d1 * den d2 div compute_gcd (den d1) (den d2)"
  define n where "n = (num d1 * d) div den d1 + (num d2 * d) div den d2"
  have b1: "0 < ?b1" and b2: "0 < ?b2"
    using nz by (simp_all add: unat_gt_0)
  have prod: "unat (den d1 * den d2) = ?b1 * ?b2"
    using nw unat_mult_lem [of "den d1" "den d2"] by (simp add: no_wrap_def)
  have d: "unat d = ?L"
    by (simp add: d_def unat_div prod compute_gcd_unat lcm_div_gcd)
  have m1: "unat (num d1 * d) = ?a1 * ?L"
    using nw unat_mult_lem [of "num d1" d] by (simp add: no_wrap_def d)
  have m2: "unat (num d2 * d) = ?a2 * ?L"
    using nw unat_mult_lem [of "num d2" d] by (simp add: no_wrap_def d)
  have q1: "unat ((num d1 * d) div den d1) = ?a1 * (?L div ?b1)"
    using b1 by (simp add: unat_div m1 mult_lcm_div1)
  have q2: "unat ((num d2 * d) div den d2) = ?a2 * (?L div ?b2)"
    using b2 by (simp add: unat_div m2 mult_lcm_div2)
  have n: "unat n = ?a1 * (?L div ?b1) + ?a2 * (?L div ?b2)"
    using nw unat_add_lem [of "(num d1 * d) div den d1" "(num d2 * d) div den d2"]
    by (simp add: no_wrap_def n_def q1 q2)
  have "0 < ?L" using b1 b2 by (simp add: lcm_pos_nat)
  then have "d \<noteq> 0" using d by (metis unat_gt_0)
  moreover have "duration_add d1 d2 = rational n d"
    using nz by (simp add: duration_add_defined d_def n_def)
  ultimately have "duration_add d1 d2 = Inr (Duration n d)"
    by (simp add: rational_def)
  then show ?thesis using d n by simp
qed

lemma exact_sum_lcm:
  fixes a1 a2 b1 b2 :: nat
  assumes "0 < b1" "0 < b2"
  shows "(a1 * (lcm b1 b2 div b1) + a2 * (lcm b1 b2 div b2)) * b1 * b2 =
         (a1 * b2 + a2 * b1) * lcm b1 b2"
proof -
  have 1: "lcm b1 b2 div b1 * b1 = lcm b1 b2" by simp
  have 2: "lcm b1 b2 div b2 * b2 = lcm b1 b2" by simp
  have "(a1 * (lcm b1 b2 div b1) + a2 * (lcm b1 b2 div b2)) * b1 * b2 =
        a1 * (lcm b1 b2 div b1 * b1) * b2 + a2 * (lcm b1 b2 div b2 * b2) * b1"
    by (simp add: algebra_simps)
  also have "\<dots> = (a1 * b2 + a2 * b1) * lcm b1 b2"
    unfolding 1 2 by (simp add: algebra_simps)
  finally show ?thesis .
qed

lemma duration_add_exact_sum:
  assumes "den d1 \<noteq> 0" "den d2 \<noteq> 0" "no_wrap d1 d2"
  shows "\<exists>s. duration_add d1 d2 = Inr s \<and> den s \<noteq> 0 \<and> exact_sum d1 d2 s"
proof -
  from duration_add_no_wrap [OF assms] obtain s where
    s: "duration_add d1 d2 = Inr s"
    and ds: "unat (den s) = lcm (unat (den d1)) (unat (den d2))"
    and ns: "unat (num s) = unat (num d1) * (unat (den s) div unat (den d1)) +
                    unat (num d2) * (unat (den s) div unat (den d2))"
    by blast
  have b: "0 < unat (den d1)" "0 < unat (den d2)"
    using assms by (simp_all add: unat_gt_0)
  have "exact_sum d1 d2 s"
    unfolding exact_sum_def ns unfolding ds
    using exact_sum_lcm [OF b] by simp
  moreover have "0 < unat (den s)"
    using b ds by (simp add: lcm_pos_nat)
  then have "den s \<noteq> 0" by (simp add: unat_gt_0)
  ultimately show ?thesis using s by blast
qed

text \<open>
  Claim C3, as the spec states it, for all durations with nonzero denominators: the sum
  satisfies the cross-multiplied check. It fails where the 32-bit product of the
  denominators wraps around: \<open>1/100000 + 1/100001\<close> is computed as
  \<open>28202/1410165408\<close>.
\<close>

theorem duration_add_wraps_counterexample:
  "duration_add (Duration 1 100000) (Duration 1 100001) = Inr (Duration 28202 1410165408) \<and>
   \<not> exact_sum (Duration 1 100000) (Duration 1 100001) (Duration 28202 1410165408)"
  by (simp add: duration_add_def udiv_def rational_def compute_gcd_def gcd_nat.simps
      exact_sum_def)

text \<open>
  Claim C3, amended: for all durations with nonzero denominators for which no
  intermediate product or sum of the algorithm leaves the 32-bit range, addition
  returns the fraction \<open>n/d\<close> of the common-denominator algorithm
  (\<open>d = den1 * den2 / gcd\<close>, \<open>n = num1 * (d / den1) + num2 * (d / den2)\<close>, not reduced
  further), and this is the exact rational sum:
  \<open>sum.num * den1 * den2 = (num1 * den2 + num2 * den1) * sum.den\<close>.
\<close>

theorem duration_add_exact:
  assumes "den d1 \<noteq> 0" "den d2 \<noteq> 0" "no_wrap d1 d2"
  shows "\<exists>s. duration_add d1 d2 = Inr s \<and>
     den s = den d1 * den d2 div compute_gcd (den d1) (den d2) \<and>
     unat (num s) = unat (num d1) * (unat (den s) div unat (den d1)) +
                    unat (num d2) * (unat (den s) div unat (den d2)) \<and>
     exact_sum d1 d2 s"
proof -
  from duration_add_no_wrap [OF assms] obtain s where
    s: "duration_add d1 d2 = Inr s"
    and ds: "unat (den s) = lcm (unat (den d1)) (unat (den d2))"
    and ns: "unat (num s) = unat (num d1) * (unat (den s) div unat (den d1)) +
                    unat (num d2) * (unat (den s) div unat (den d2))"
    by blast
  have b: "0 < unat (den d1)" "0 < unat (den d2)"
    using assms by (simp_all add: unat_gt_0)
  have "exact_sum d1 d2 s"
    unfolding exact_sum_def ns unfolding ds
    using exact_sum_lcm [OF b] by simp
  moreover have "den s = den d1 * den d2 div compute_gcd (den d1) (den d2)"
    using s assms(1,2) by (auto simp: duration_add_defined rational_def split: if_splits)
  ultimately show ?thesis using s ns by blast
qed

theorem duration_add_exact_witness:
  "den (Duration 1 4) \<noteq> 0 \<and> den (Duration 3 8) \<noteq> 0 \<and> no_wrap (Duration 1 4) (Duration 3 8) \<and>
   duration_add (Duration 1 4) (Duration 3 8) = Inr (Duration 5 8) \<and>
   exact_sum (Duration 1 4) (Duration 3 8) (Duration 5 8)"
proof -
  have h: "den (Duration 1 4) \<noteq> 0" "den (Duration 3 8) \<noteq> 0"
    by simp_all
  have l: "lcm (4::nat) 8 = 8"
    by (simp add: lcm_nat_def gcd_nat.simps)
  have w: "no_wrap (Duration 1 4) (Duration 3 8)"
    by (simp add: no_wrap_def l)
  have e: "duration_add (Duration 1 4) (Duration 3 8) = Inr (Duration 5 8)"
    by (simp add: duration_add_def udiv_def rational_def compute_gcd_def gcd_nat.simps)
  from duration_add_exact [OF h w] e h w show ?thesis
    by auto
qed

text \<open>
  Claim C9: addition fails when either denominator is 0 (the assertion on the right
  operand, or the division by the left operand's denominator); when both denominators
  are nonzero the assertion holds and none of the divisions, by the greatest common
  divisor, by \<open>den1\<close> and by \<open>den2\<close>, has a zero divisor.
\<close>

theorem duration_add_precondition:
  "(den d1 = 0 \<or> den d2 = 0 \<longrightarrow> isl (duration_add d1 d2)) \<and>
   (den d1 \<noteq> 0 \<and> den d2 \<noteq> 0 \<longrightarrow>
      compute_gcd (den d1) (den d2) \<noteq> 0 \<and>
      duration_add d1 d2 \<noteq> Inl AssertionFailure \<and>
      duration_add d1 d2 \<noteq> Inl DivisionByZero)"
proof (intro conjI impI)
  assume "den d1 = 0 \<or> den d2 = 0"
  then show "isl (duration_add d1 d2)"
    by (auto simp: duration_add_def udiv_def and_then_def split: sum.splits)
next
  assume h: "den d1 \<noteq> 0 \<and> den d2 \<noteq> 0"
  then show "compute_gcd (den d1) (den d2) \<noteq> 0"
    by (simp add: compute_gcd_nonzero)
  from h show "duration_add d1 d2 \<noteq> Inl AssertionFailure"
    by (simp add: duration_add_defined rational_def)
  from h show "duration_add d1 d2 \<noteq> Inl DivisionByZero"
    by (simp add: duration_add_defined rational_def)
qed

theorem duration_add_precondition_witness:
  "duration_add (Duration 1 0) (Duration 1 4) = Inl DivisionByZero \<and>
   duration_add (Duration 1 4) (Duration 1 0) = Inl AssertionFailure \<and>
   isl (duration_add (Duration 1 0) (Duration 1 4)) \<and>
   isl (duration_add (Duration 1 4) (Duration 1 0)) \<and>
   compute_gcd (den (Duration 1 4)) (den (Duration 1 8)) \<noteq> 0 \<and>
   duration_add (Duration 1 4) (Duration 1 8) = Inr (Duration 3 8)"
proof -
  have 1: "duration_add (Duration 1 0) (Duration 1 4) = Inl DivisionByZero"
    by (simp add: duration_add_def udiv_def rational_def compute_gcd_def gcd_nat.simps)
  have 2: "duration_add (Duration 1 4) (Duration 1 0) = Inl AssertionFailure"
    by (simp add: duration_add_def)
  have 3: "duration_add (Duration 1 4) (Duration 1 8) = Inr (Duration 3 8)"
    by (simp add: duration_add_def udiv_def rational_def compute_gcd_def gcd_nat.simps)
  show ?thesis
    using duration_add_precondition [of "Duration 1 0" "Duration 1 4"]
      duration_add_precondition [of "Duration 1 4" "Duration 1 0"]
      duration_add_precondition [of "Duration 1 4" "Duration 1 8"] 1 2 3
    by simp
qed

section \<open>Properties of beam and tuplet validation\<close>

lemma is_valid_rules: "is_valid n c = [] \<longleftrightarrow> \<not> membership_violation n c"
  by (cases c) (simp_all add: membership_violation_def)

lemma for_each_valid_find:
  "for_each_valid n es =
     (case List.find (membership_violation n) es of
        None \<Rightarrow> Inr ()
      | Some c \<Rightarrow> Inl (InvalidBeam (is_valid n c)))"
  by (induction es) (simp_all add: is_valid_rules)

text \<open>
  Claim C1: a member of a beam with \<open>n\<close> members has a violation message exactly when
  it breaks the membership rules of the spec (a rest; a note or chord longer than a
  quarter or in a beam of fewer than 2 members; a nested beam in a beam of fewer than 2
  members; a tuplet longer than a quarter). Validation fails with \<open>InvalidBeam\<close> and the
  message of the first violating member, in member order, and succeeds exactly when no
  member violates a rule.
\<close>

theorem beam_validate_rules:
  "(is_valid n c = [] \<longleftrightarrow> \<not> membership_violation n c) \<and>
   beam_validate es =
     (case List.find (membership_violation (length es)) es of
        None \<Rightarrow> Inr ()
      | Some c \<Rightarrow> Inl (InvalidBeam (is_valid (length es) c))) \<and>
   (beam_validate es = Inr () \<longleftrightarrow> list_all (\<lambda>c. \<not> membership_violation (length es) c) es)"
proof (intro conjI)
  show "is_valid n c = [] \<longleftrightarrow> \<not> membership_violation n c"
    by (rule is_valid_rules)
  show f: "beam_validate es =
     (case List.find (membership_violation (length es)) es of
        None \<Rightarrow> Inr ()
      | Some c \<Rightarrow> Inl (InvalidBeam (is_valid (length es) c)))"
    by (simp add: beam_validate_def for_each_valid_find)
  show "beam_validate es = Inr () \<longleftrightarrow> list_all (\<lambda>c. \<not> membership_violation (length es) c) es"
    unfolding f by (auto simp: find_None_iff find_Some_iff list_all_iff split: option.splits)
qed

text \<open>The examples of the spec's section 8, and a beam with two violations.\<close>

lemma beam_validate_examples:
  "beam [Note quarter p] = Inl (InvalidBeam ''must contain at least two values'')"
  "beam [Note eighth p, Note eighth q] = Inr (Beam [Note eighth p, Note eighth q])"
  "beam [Rest eighth, Note eighth p] = Inl (InvalidBeam ''cannot contain rests'')"
  "beam [Note half p, Note eighth q] = Inl (InvalidBeam ''cannot hold whole or half notes'')"
  "beam [Note eighth p, Note half q, Rest eighth] =
     Inl (InvalidBeam ''cannot hold whole or half notes'')"
  by (simp_all add: beam_def beam_validate_def value_gt_def quarter_def eighth_def half_def)

text \<open>
  Claim C8: tuplet validation fails with \<open>InvalidValue\<close> exactly when the tuplet has fewer
  than 2 elements, never with \<open>InvalidTuplet\<close>, and passes with 2 or more elements; the
  constructor, which validates, fails on the same sequences.
\<close>

theorem tuplet_validate_count:
  "((\<exists>m. tuplet_validate es = Inl (InvalidValue m)) \<longleftrightarrow> length es < 2) \<and>
   (tuplet_validate es = Inr () \<longleftrightarrow> 2 \<le> length es) \<and>
   tuplet_validate es \<noteq> Inl (InvalidTuplet n d i out) \<and>
   (isl (tuplet v es) \<longleftrightarrow> length es < 2)"
  by (auto simp: tuplet_validate_def tuplet_def)

section \<open>Properties of the duration of a column\<close>

lemma exact_sum_rat:
  assumes "exact_sum d1 d2 s" "den d1 \<noteq> 0" "den d2 \<noteq> 0" "den s \<noteq> 0"
  shows "rat_of s = rat_of d1 + rat_of d2"
proof -
  let ?n = "of_nat (unat (num s)) :: rat" and ?L = "of_nat (unat (den s)) :: rat"
  let ?a1 = "of_nat (unat (num d1)) :: rat" and ?b1 = "of_nat (unat (den d1)) :: rat"
  let ?a2 = "of_nat (unat (num d2)) :: rat" and ?b2 = "of_nat (unat (den d2)) :: rat"
  have nz: "?b1 \<noteq> 0" "?b2 \<noteq> 0" "?L \<noteq> 0"
    using assms(2-4) by (simp_all add: unsigned_eq_0_iff)
  have "of_nat (unat (num s) * unat (den d1) * unat (den d2)) =
        (of_nat ((unat (num d1) * unat (den d2) + unat (num d2) * unat (den d1)) * unat (den s)) :: rat)"
    using assms(1) unfolding exact_sum_def by (rule arg_cong)
  then have "?n * ?b1 * ?b2 = (?a1 * ?b2 + ?a2 * ?b1) * ?L"
    by simp
  with nz show ?thesis
    unfolding rat_of_def by (simp add: field_simps)
qed

lemma accumulate_exact:
  assumes "map get_duration es = map Inr ds" "chain_no_wrap acc ds" "den acc \<noteq> 0"
  shows "\<exists>s. accumulate es acc = Inr s \<and> den s \<noteq> 0 \<and>
             rat_of s = rat_of acc + sum_list (map rat_of ds)"
  using assms
proof (induction es arbitrary: ds acc)
  case Nil
  then show ?case by simp
next
  case (Cons e es)
  from Cons.prems(1) obtain d ds' where ds: "ds = d # ds'" and e: "get_duration e = Inr d"
    and es: "map get_duration es = map Inr ds'"
    by (cases ds) auto
  from Cons.prems(2) ds have nz: "den d \<noteq> 0" and nw: "no_wrap acc d"
    by simp_all
  from duration_add_exact_sum [OF Cons.prems(3) nz nw] obtain s where
    s: "duration_add acc d = Inr s" and sn: "den s \<noteq> 0" and ex: "exact_sum acc d s"
    by blast
  from Cons.prems(2) ds s have ch: "chain_no_wrap s ds'"
    by simp
  from Cons.IH [OF es ch sn] obtain t where
    t: "accumulate es s = Inr t" and tn: "den t \<noteq> 0"
    and tr: "rat_of t = rat_of s + sum_list (map rat_of ds')"
    by blast
  from exact_sum_rat [OF ex Cons.prems(3) nz sn] have "rat_of s = rat_of acc + rat_of d" .
  with t tn tr e s ds show ?case
    by simp
qed

lemma accumulate_foldl:
  "accumulate es res =
     foldl (\<lambda>acc p. and_then acc (\<lambda>r. and_then (get_duration p) (duration_add r))) (Inr res) es"
proof -
  have inl: "foldl (\<lambda>acc p. and_then acc (\<lambda>r. and_then (get_duration p) (duration_add r)))
      (Inl e) es = Inl e" for e es
    by (induction es) simp_all
  show ?thesis
  proof (induction es arbitrary: res)
    case Nil
    then show ?case by simp
  next
    case (Cons p ps)
    then show ?case
      by (cases "and_then (get_duration p) (duration_add res)") (simp_all add: inl)
  qed
qed

lemma mult_div_256:
  assumes "n < 2 ^ 24"
  shows "((of_nat n :: integer) * 256) div 256 = of_nat n"
proof -
  have n: "unat (of_nat n :: integer) = n"
    using assms by (simp add: unat_of_nat)
  have "unat (of_nat n :: integer) * unat (256 :: integer) < 2 ^ 32"
    using assms by (simp add: n)
  then have "unat ((of_nat n :: integer) * 256) = n * 256"
    using unat_mult_lem [of "of_nat n :: integer" 256] by (simp add: n)
  then have "unat (((of_nat n :: integer) * 256) div 256) = unat (of_nat n :: integer)"
    by (simp add: unat_div n)
  then show ?thesis
    by (simp only: word_unat_eq_iff)
qed

lemma duration_add_256:
  assumes "n < 2 ^ 24"
  shows "duration_add (Duration (of_nat n) 256) (Duration 7 256) =
     Inr (Duration (of_nat (n + 7)) 256)"
  by (simp add: duration_add_def udiv_def rational_def compute_gcd_def mult_div_256 [OF assms])

lemma accumulate_replicate:
  "n + 7 * k \<le> 2 ^ 24 + 6 \<Longrightarrow>
   accumulate (replicate k (Note (dot (dot sixtyfourth)) p)) (Duration (of_nat n) 256) =
     Inr (Duration (of_nat (n + 7 * k)) 256)"
proof (induction k arbitrary: n)
  case 0
  then show ?case by simp
next
  case (Suc k)
  from Suc.prems have n: "n < 2 ^ 24" and r: "(n + 7) + 7 * k \<le> 2 ^ 24 + 6"
    by simp_all
  have t: "to_duration (dot (dot sixtyfourth)) = Duration 7 256"
    by (simp add: to_duration_def dot_def sixtyfourth_def)
  from Suc.IH [OF r] duration_add_256 [OF n] show ?case
    by (simp add: t add.assoc mult.commute)
qed

lemma accumulate_append:
  "accumulate (xs @ ys) acc = and_then (accumulate xs acc) (accumulate ys)"
proof (induction xs arbitrary: acc)
  case Nil
  then show ?case by simp
next
  case (Cons x xs)
  then show ?case
    by (cases "duration_plus_column acc x") simp_all
qed

lemma for_each_valid_replicate:
  "is_valid n x = [] \<Longrightarrow> for_each_valid n (replicate k x) = Inr ()"
  by (induction k) simp_all

text \<open>
  Claim C10, as it is stated, for every beam: the duration of a beam is the exact
  rational sum of the durations of its members. A beam of 2396747 double-dotted
  sixty-fourth notes (\<open>7/256\<close> each) passes validation and has the duration \<open>13/256\<close>:
  the product \<open>num * d\<close> of \<^verbatim>\<open>operator+\<close> wraps around at the last member, when the
  running sum has reached \<open>16777222/256\<close>. The sum of the members is \<open>16777229/256\<close>.
\<close>

theorem get_duration_wraps_counterexample:
  "constructible (Beam (replicate 2396747 (Note (dot (dot sixtyfourth)) (Pitch pc_c 4)))) \<and>
   map get_duration (replicate 2396747 (Note (dot (dot sixtyfourth)) (Pitch pc_c 4))) =
     map Inr (replicate 2396747 (Duration 7 256)) \<and>
   get_duration (Beam (replicate 2396747 (Note (dot (dot sixtyfourth)) (Pitch pc_c 4)))) =
     Inr (Duration 13 256) \<and>
   sum_list (map rat_of (replicate 2396747 (Duration 7 256))) = 16777229 / 256 \<and>
   rat_of (Duration 13 256) \<noteq> sum_list (map rat_of (replicate 2396747 (Duration 7 256)))"
proof -
  let ?n = "Note (dot (dot sixtyfourth)) (Pitch pc_c 4)"
  have t: "to_duration (dot (dot sixtyfourth)) = Duration 7 256"
    by (simp add: to_duration_def dot_def sixtyfourth_def)
  have s: "replicate 2396747 ?n = ?n # replicate 2396745 ?n @ [?n]"
  proof -
    have "(2396747 :: nat) = Suc (Suc 2396745)" by simp
    then show ?thesis
      by (simp only: replicate_Suc replicate_append_same)
  qed
  have v: "is_valid 2396747 ?n = []"
    by (simp add: value_gt_def dot_def sixtyfourth_def quarter_def)
  have ca: "constructible_all (replicate k ?n)" for k
    by (induction k) simp_all
  have 1: "constructible (Beam (replicate 2396747 ?n))"
    using for_each_valid_replicate [OF v, of 2396747] ca
    by (simp add: beam_validate_def)
  have 2: "map get_duration (replicate 2396747 ?n) = map Inr (replicate 2396747 (Duration 7 256))"
    by (simp add: t)
  have a1: "duration_add zero (Duration 7 256) = Inr (Duration 7 256)"
    by (simp add: zero_def duration_add_def udiv_def rational_def compute_gcd_def)
  have a2: "accumulate (replicate 2396745 ?n) (Duration (of_nat 7) 256) =
      Inr (Duration (of_nat (7 + 7 * 2396745)) 256)"
    by (rule accumulate_replicate) simp
  have a3: "duration_add (Duration 16777222 256) (Duration 7 256) = Inr (Duration 13 256)"
    by (simp add: duration_add_def udiv_def rational_def compute_gcd_def)
  have 3: "get_duration (Beam (replicate 2396747 ?n)) = Inr (Duration 13 256)"
    using a1 a2 a3 unfolding s by (simp add: accumulate_append t)
  have 4: "sum_list (map rat_of (replicate 2396747 (Duration 7 256))) = 16777229 / 256"
    by (simp add: sum_list_replicate rat_of_def)
  have 5: "rat_of (Duration 13 256) \<noteq> sum_list (map rat_of (replicate 2396747 (Duration 7 256)))"
    unfolding 4 by (simp add: rat_of_def)
  from 1 2 3 4 5 show ?thesis by blast
qed

text \<open>
  Claim C10, amended: the duration of a rest, note, chord or tuplet is its stored value
  converted to a duration; adding a column to a duration adds the column's duration; the
  duration of a beam is the left fold of that addition, which is Duration addition, over
  its members, started at zero, computed recursively; and for every beam whose members
  have the durations \<open>ds\<close> and for which no addition of the running sum leaves the 32-bit
  range, the beam's duration is the exact rational sum of \<open>ds\<close>.
\<close>

theorem get_duration_sum:
  "get_duration (Rest v) = Inr (to_duration v) \<and>
   get_duration (Note v p) = Inr (to_duration v) \<and>
   get_duration (Chord v ps) = Inr (to_duration v) \<and>
   get_duration (Tuplet v es) = Inr (to_duration v) \<and>
   duration_plus_column d c = and_then (get_duration c) (duration_add d) \<and>
   get_duration (Beam es) =
     foldl (\<lambda>acc p. and_then acc (\<lambda>r. duration_plus_column r p)) (Inr zero) es \<and>
   (map get_duration es = map Inr ds \<and> chain_no_wrap zero ds \<longrightarrow>
      (\<exists>s. get_duration (Beam es) = Inr s \<and> rat_of s = sum_list (map rat_of ds)))"
proof -
  have z: "den zero \<noteq> 0" "rat_of zero = 0"
    by (simp_all add: zero_def rat_of_def)
  have "\<exists>s. get_duration (Beam es) = Inr s \<and> rat_of s = sum_list (map rat_of ds)"
    if "map get_duration es = map Inr ds" "chain_no_wrap zero ds"
    using accumulate_exact [OF that z(1)] z(2) by auto
  then show ?thesis
    by (simp add: accumulate_foldl)
qed

theorem get_duration_sum_witness:
  "map get_duration [Note eighth (Pitch pc_c 4), Chord (dot eighth) [Pitch pc_e 4]] =
     map Inr [Duration 1 8, Duration 3 16] \<and>
   chain_no_wrap zero [Duration 1 8, Duration 3 16] \<and>
   get_duration (Beam [Note eighth (Pitch pc_c 4), Chord (dot eighth) [Pitch pc_e 4]]) =
     Inr (Duration 5 16) \<and>
   rat_of (Duration 5 16) = sum_list (map rat_of [Duration 1 8, Duration 3 16])"
proof -
  let ?es = "[Note eighth (Pitch pc_c 4), Chord (dot eighth) [Pitch pc_e 4]]"
  let ?ds = "[Duration 1 8, Duration 3 16]"
  have g: "gcd (1::nat) 8 = 1" "gcd (8::nat) 16 = 8"
    by (simp_all add: gcd_nat.simps)
  have a1: "duration_add zero (Duration 1 8) = Inr (Duration 1 8)"
    by (simp add: zero_def duration_add_def udiv_def rational_def compute_gcd_def g)
  have a2: "duration_add (Duration 1 8) (Duration 3 16) = Inr (Duration 5 16)"
    by (simp add: duration_add_def udiv_def rational_def compute_gcd_def g)
  have m: "map get_duration ?es = map Inr ?ds"
    by (simp add: to_duration_def eighth_def dot_def)
  have c: "chain_no_wrap zero ?ds"
    by (simp add: a1 a2) (simp add: no_wrap_def zero_def lcm_nat_def g)
  have e: "get_duration (Beam ?es) = Inr (Duration 5 16)"
    by (simp add: to_duration_def eighth_def dot_def a1 a2)
  from get_duration_sum [of _ _ _ ?es _ _ ?ds] m c e show ?thesis
    by auto
qed

section \<open>Properties of the deep copy\<close>


lemma copy_variant_id:
  "constructible c \<Longrightarrow> copy_variant c = Inr c"
  "constructible_all cs \<Longrightarrow> transform_variant cs = Inr cs"
  by (induction c and cs rule: copy_variant_transform_variant.induct)
     (simp_all add: beam_def tuplet_def)
















section \<open>Properties of tuplet scaling\<close>

lemmas value_defs = whole_def half_def quarter_def eighth_def sixteenth_def thirtysecond_def
  sixtyfourth_def dot_def

lemma value_all_eq: "value_all =
 [NoteValue 1 1 0, NoteValue 3 2 1, NoteValue 7 4 2, NoteValue 1 2 0,
  NoteValue 3 4 1, NoteValue 7 8 2, NoteValue 1 4 0, NoteValue 3 8 1,
  NoteValue 7 16 2, NoteValue 1 8 0, NoteValue 3 16 1, NoteValue 7 32 2,
  NoteValue 1 16 0, NoteValue 3 32 1, NoteValue 7 64 2, NoteValue 1 32 0,
  NoteValue 3 64 1, NoteValue 7 128 2, NoteValue 1 64 0, NoteValue 3 128 1,
  NoteValue 7 256 2]"
  by (simp add: value_all_def value_defs)

lemma structural_eq_exact: "exact_comparison structural_eq"
  by (simp add: exact_comparison_def structural_eq_def rat_of_def)

lemma cross_eq_exact: "exact_comparison cross_eq"
proof -
  have "rat_of a = rat_of b" if e: "cross_eq a b" and a: "den a \<noteq> 0" and b: "den b \<noteq> 0" for a b
  proof -
    have "of_nat (unat (num a) * unat (den b)) = (of_nat (unat (num b) * unat (den a)) :: rat)"
      using e unfolding cross_eq_def by (rule arg_cong)
    moreover have "(unsigned (den a) :: rat) \<noteq> 0" "(unsigned (den b) :: rat) \<noteq> 0"
      using a b by (simp_all add: unsigned_eq_0_iff)
    ultimately show ?thesis
      unfolding rat_of_def by (simp add: field_simps)
  qed
  then show ?thesis
    by (auto simp: exact_comparison_def)
qed

lemma first_match_index:
  "first_match eq outer vs = Some v \<longleftrightarrow>
     (\<exists>i<length vs. vs ! i = v \<and> eq outer (to_duration v) \<and>
        (\<forall>j<i. \<not> eq outer (to_duration (vs ! j))))"
proof (induction vs)
  case Nil
  then show ?case by simp
next
  case (Cons w vs)
  show ?case
  proof (cases "eq outer (to_duration w)")
    case True
    have "(\<exists>i<length (w # vs). (w # vs) ! i = v \<and> eq outer (to_duration v) \<and>
        (\<forall>j<i. \<not> eq outer (to_duration ((w # vs) ! j)))) \<longleftrightarrow> w = v"
    proof
      assume "\<exists>i<length (w # vs). (w # vs) ! i = v \<and> eq outer (to_duration v) \<and>
        (\<forall>j<i. \<not> eq outer (to_duration ((w # vs) ! j)))"
      then obtain i where i: "(w # vs) ! i = v" and f: "\<forall>j<i. \<not> eq outer (to_duration ((w # vs) ! j))"
        by blast
      from f True have "i = 0"
        by (cases i) auto
      with i show "w = v" by simp
    next
      assume "w = v"
      with True show "\<exists>i<length (w # vs). (w # vs) ! i = v \<and> eq outer (to_duration v) \<and>
        (\<forall>j<i. \<not> eq outer (to_duration ((w # vs) ! j)))"
        by (intro exI [of _ 0]) simp
    qed
    with True show ?thesis by simp
  next
    case False
    have "(\<exists>i<length (w # vs). (w # vs) ! i = v \<and> eq outer (to_duration v) \<and>
        (\<forall>j<i. \<not> eq outer (to_duration ((w # vs) ! j)))) \<longleftrightarrow>
      (\<exists>i<length vs. vs ! i = v \<and> eq outer (to_duration v) \<and>
        (\<forall>j<i. \<not> eq outer (to_duration (vs ! j))))" (is "?l \<longleftrightarrow> ?r")
    proof
      assume ?l
      then obtain i where i: "i < length (w # vs)" "(w # vs) ! i = v" "eq outer (to_duration v)"
        and f: "\<forall>j<i. \<not> eq outer (to_duration ((w # vs) ! j))"
        by blast
      from i False obtain k where k: "i = Suc k"
        by (cases i) auto
      have "\<forall>j<k. \<not> eq outer (to_duration (vs ! j))"
      proof (intro allI impI)
        fix j assume "j < k"
        then have "Suc j < i" using k by simp
        with f have "\<not> eq outer (to_duration ((w # vs) ! Suc j))" by blast
        then show "\<not> eq outer (to_duration (vs ! j))" by simp
      qed
      with i k show ?r
        by (intro exI [of _ k]) simp
    next
      assume ?r
      then obtain k where k: "k < length vs" "vs ! k = v" "eq outer (to_duration v)"
        and f: "\<forall>j<k. \<not> eq outer (to_duration (vs ! j))"
        by blast
      have "\<forall>j<Suc k. \<not> eq outer (to_duration ((w # vs) ! j))"
      proof (intro allI impI)
        fix j assume j: "j < Suc k"
        show "\<not> eq outer (to_duration ((w # vs) ! j))"
        proof (cases j)
          case 0
          with False show ?thesis by simp
        next
          case (Suc m)
          with j f show ?thesis by simp
        qed
      qed
      with k show ?l
        by (intro exI [of _ "Suc k"]) simp
    qed
    with False Cons.IH show ?thesis by simp
  qed
qed

lemma first_match_none:
  "first_match eq outer vs = None \<longleftrightarrow> (\<forall>v\<in>set vs. \<not> eq outer (to_duration v))"
  by (induction vs) simp_all

lemma value_all_den: "v \<in> set value_all \<Longrightarrow> den (to_duration v) \<noteq> 0"
  by (auto simp: value_all_eq to_duration_def)

lemma value_all_not_twelfth:
  "v \<in> set value_all \<Longrightarrow> rat_of (to_duration v) \<noteq> 1 / 12"
  by (auto simp: value_all_eq to_duration_def rat_of_def)

lemma value_all_not_fifth:
  "v \<in> set value_all \<Longrightarrow> rat_of (to_duration v) \<noteq> 1 / 5"
  by (auto simp: value_all_eq to_duration_def rat_of_def)

lemma scale_eighth:
  assumes "exact_comparison eq"
  shows "tuplet_scale_value eq 3 2 eighth = Inl (InvalidTuplet 3 2 (Duration 1 8) (Duration 2 24))"
proof -
  have "\<not> eq (Duration 2 24) (to_duration v)" if v: "v \<in> set value_all" for v
  proof
    assume "eq (Duration 2 24) (to_duration v)"
    with assms value_all_den [OF v] have "rat_of (Duration 2 24) = rat_of (to_duration v)"
      unfolding exact_comparison_def by auto
    with value_all_not_twelfth [OF v] show False
      by (simp add: rat_of_def)
  qed
  then have "first_match eq (Duration 2 24) value_all = None"
    by (simp add: first_match_none)
  then show ?thesis
    by (simp add: tuplet_scale_value_def tuplet_scale_def rational_def to_duration_def eighth_def)
qed

lemma scale_quarter:
  assumes "exact_comparison eq"
  shows "tuplet_scale_value eq 5 4 quarter = Inl (InvalidTuplet 5 4 (Duration 1 4) (Duration 4 20))"
proof -
  have "\<not> eq (Duration 4 20) (to_duration v)" if v: "v \<in> set value_all" for v
  proof
    assume "eq (Duration 4 20) (to_duration v)"
    with assms value_all_den [OF v] have "rat_of (Duration 4 20) = rat_of (to_duration v)"
      unfolding exact_comparison_def by auto
    with value_all_not_fifth [OF v] show False
      by (simp add: rat_of_def)
  qed
  then have "first_match eq (Duration 4 20) value_all = None"
    by (simp add: first_match_none)
  then show ?thesis
    by (simp add: tuplet_scale_value_def tuplet_scale_def rational_def to_duration_def quarter_def)
qed

text \<open>
  Claim C2, as the spec states it, for every ratio and inner duration, with
  \<open>scale(3, 2, eighth)\<close> the quarter. The outer duration of an eighth under the ratio
  3:2 is \<open>2/24\<close>, which no value of \<open>value::all\<close> equals under either comparison, so the
  call throws \<open>invalid_tuplet\<close>. With the ratio \<open>0:2\<close> the outer denominator is 0 and
  the construction of the outer fraction fails before the scan. With the ratio \<open>4:3\<close>
  and the inner duration \<open>2863311531/1\<close> the numerator \<open>2863311531 * 3\<close> wraps
  around to 1, and the call returns the quarter for an inner duration whose three
  quarters are no value.
\<close>

theorem tuplet_scale_eighth_counterexample:
  "tuplet_scale_value structural_eq 3 2 eighth =
     Inl (InvalidTuplet 3 2 (Duration 1 8) (Duration 2 24)) \<and>
   tuplet_scale_value cross_eq 3 2 eighth =
     Inl (InvalidTuplet 3 2 (Duration 1 8) (Duration 2 24)) \<and>
   tuplet_scale_value structural_eq 3 2 eighth \<noteq> Inr quarter \<and>
   tuplet_scale_value cross_eq 3 2 eighth \<noteq> Inr quarter \<and>
   tuplet_scale structural_eq 0 2 (Duration 1 8) = Inl ZeroDenominator \<and>
   tuplet_scale cross_eq 0 2 (Duration 1 8) = Inl ZeroDenominator \<and>
   tuplet_scale structural_eq 4 3 (Duration 2863311531 1) = Inr quarter \<and>
   tuplet_scale cross_eq 4 3 (Duration 2863311531 1) = Inr quarter \<and>
   \<not> scale_no_wrap 4 3 (Duration 2863311531 1) \<and>
   rat_of (Duration 2863311531 1) * (3 / 4) \<noteq> rat_of (to_duration quarter)"
proof -
  have z: "tuplet_scale eq 0 2 (Duration 1 8) = Inl ZeroDenominator" for eq
    by (simp add: tuplet_scale_def rational_def)
  have w1: "tuplet_scale structural_eq 4 3 (Duration 2863311531 1) = Inr quarter"
    by (simp add: tuplet_scale_def rational_def value_all_eq structural_eq_def to_duration_def
        quarter_def)
  have w2: "tuplet_scale cross_eq 4 3 (Duration 2863311531 1) = Inr quarter"
    by (simp add: tuplet_scale_def rational_def value_all_eq cross_eq_def to_duration_def
        quarter_def)
  have n: "\<not> scale_no_wrap 4 3 (Duration 2863311531 1)"
    by (simp add: scale_no_wrap_def)
  have r: "rat_of (Duration 2863311531 1) * (3 / 4) \<noteq> rat_of (to_duration quarter)"
    by (simp add: rat_of_def to_duration_def quarter_def)
  from scale_eighth [OF structural_eq_exact] scale_eighth [OF cross_eq_exact] z w1 w2 n r
  show ?thesis by simp
qed

text \<open>
  Claim C2, amended: for every ratio with nonzero \<open>num\<close> and every inner duration with
  nonzero denominator for which neither product leaves the 32-bit range, and for an
  exact comparison of fractions, \<open>scale\<close> forms the outer duration by exact
  cross-multiplication (outer numerator = inner numerator * den, outer denominator =
  inner denominator * num), scans \<open>value::all\<close> in order and returns the first entry whose
  duration the comparison equates with the outer duration, which is then the rational
  number \<open>inner * den / num\<close>; exactly when no entry is equated it fails with
  \<open>InvalidTuplet\<close>, which carries the ratio, the inner and the outer duration. The
  overload for a value converts it to a duration first. In particular
  \<open>scale(3, 2, eighth)\<close> and \<open>scale(5, 4, quarter)\<close> fail with \<open>InvalidTuplet\<close>.
\<close>

theorem tuplet_scale_first_match:
  assumes ex: "exact_comparison eq"
    and nz: "den inner \<noteq> 0" "n \<noteq> 0"
    and nw: "scale_no_wrap n d inner"
  shows "\<exists>outer. rational (num inner * d) (den inner * n) = Inr outer \<and>
     unat (num outer) = unat (num inner) * unat d \<and>
     unat (den outer) = unat (den inner) * unat n \<and>
     (\<forall>v. tuplet_scale eq n d inner = Inr v \<longleftrightarrow>
        (\<exists>i<length value_all. value_all ! i = v \<and> eq outer (to_duration v) \<and>
           (\<forall>j<i. \<not> eq outer (to_duration (value_all ! j))))) \<and>
     (tuplet_scale eq n d inner = Inl (InvalidTuplet n d inner outer) \<longleftrightarrow>
        (\<forall>v\<in>set value_all. \<not> eq outer (to_duration v))) \<and>
     (\<forall>v. tuplet_scale eq n d inner = Inr v \<longrightarrow>
        v \<in> set value_all \<and>
        rat_of (to_duration v) = rat_of inner * (of_nat (unat d) / of_nat (unat n))) \<and>
     tuplet_scale_value eq n d w = tuplet_scale eq n d (to_duration w) \<and>
     tuplet_scale_value eq 3 2 eighth = Inl (InvalidTuplet 3 2 (Duration 1 8) (Duration 2 24)) \<and>
     tuplet_scale_value eq 5 4 quarter = Inl (InvalidTuplet 5 4 (Duration 1 4) (Duration 4 20))"
proof -
  define outer where "outer = Duration (num inner * d) (den inner * n)"
  have un: "unat (num outer) = unat (num inner) * unat d"
    using nw unat_mult_lem [of "num inner" d] by (simp add: scale_no_wrap_def outer_def)
  have ud: "unat (den outer) = unat (den inner) * unat n"
    using nw unat_mult_lem [of "den inner" n] by (simp add: scale_no_wrap_def outer_def)
  have "0 < unat (den inner)" "0 < unat n"
    using nz by (simp_all add: unat_gt_0)
  then have "0 < unat (den outer)"
    by (simp add: ud)
  then have dn: "den outer \<noteq> 0"
    by (simp add: unat_gt_0)
  then have r: "rational (num inner * d) (den inner * n) = Inr outer"
    by (simp add: rational_def outer_def)
  have s: "tuplet_scale eq n d inner =
      (case first_match eq outer value_all of
         Some v \<Rightarrow> Inr v
       | None \<Rightarrow> Inl (InvalidTuplet n d inner outer))"
    by (simp add: tuplet_scale_def r)
  have 1: "tuplet_scale eq n d inner = Inr v \<longleftrightarrow>
        (\<exists>i<length value_all. value_all ! i = v \<and> eq outer (to_duration v) \<and>
           (\<forall>j<i. \<not> eq outer (to_duration (value_all ! j))))" for v
    unfolding s first_match_index [symmetric]
    by (cases "first_match eq outer value_all") simp_all
  have 2: "tuplet_scale eq n d inner = Inl (InvalidTuplet n d inner outer) \<longleftrightarrow>
        (\<forall>v\<in>set value_all. \<not> eq outer (to_duration v))"
    unfolding s first_match_none [symmetric]
    by (cases "first_match eq outer value_all") simp_all
  have ro: "rat_of outer = rat_of inner * (of_nat (unat d) / of_nat (unat n))"
    by (simp add: rat_of_def un ud)
  have 3: "v \<in> set value_all \<and>
        rat_of (to_duration v) = rat_of inner * (of_nat (unat d) / of_nat (unat n))"
    if "tuplet_scale eq n d inner = Inr v" for v
  proof -
    from that 1 obtain i where i: "i < length value_all" "value_all ! i = v"
      and e: "eq outer (to_duration v)"
      by blast
    from i have v: "v \<in> set value_all"
      by (metis nth_mem)
    from ex e dn value_all_den [OF v] have "rat_of outer = rat_of (to_duration v)"
      unfolding exact_comparison_def by blast
    with v ro show ?thesis by simp
  qed
  from r un ud 1 2 3 scale_eighth [OF ex] scale_quarter [OF ex] show ?thesis
    by (intro exI [of _ outer]) (simp add: tuplet_scale_value_def)
qed

theorem tuplet_scale_first_match_witness:
  "exact_comparison cross_eq \<and> den (Duration 3 8) \<noteq> 0 \<and> (3 :: integer) \<noteq> 0 \<and>
   scale_no_wrap 3 2 (Duration 3 8) \<and>
   rational (num (Duration 3 8) * 2) (den (Duration 3 8) * 3) = Inr (Duration 6 24) \<and>
   tuplet_scale cross_eq 3 2 (Duration 3 8) = Inr quarter \<and>
   value_all ! 6 = quarter \<and>
   rat_of (to_duration quarter) = rat_of (Duration 3 8) * (of_nat (unat (2 :: integer)) / of_nat (unat (3 :: integer)))"
proof -
  have h: "den (Duration 3 8) \<noteq> 0" "(3 :: integer) \<noteq> 0"
    by simp_all
  have w: "scale_no_wrap 3 2 (Duration 3 8)"
    by (simp add: scale_no_wrap_def)
  have s: "tuplet_scale cross_eq 3 2 (Duration 3 8) = Inr quarter"
    by (simp add: tuplet_scale_def rational_def value_all_eq cross_eq_def to_duration_def
        quarter_def)
  have r: "rational (num (Duration 3 8) * 2) (den (Duration 3 8) * 3) = Inr (Duration 6 24)"
    by (simp add: rational_def)
  have q: "value_all ! 6 = quarter"
    by (simp add: value_all_eq quarter_def)
  from tuplet_scale_first_match [OF cross_eq_exact h w] s r q w cross_eq_exact
  show ?thesis
    by auto
qed

section \<open>Properties of the parser\<close>

lemma repeat_lit_count: "repeat_lit k c s = (n, r) \<Longrightarrow> n \<le> k"
proof (induction k arbitrary: s n r)
  case 0
  then show ?case by simp
next
  case (Suc k)
  show ?case
  proof (cases "lit c s")
    case None
    with Suc.prems show ?thesis by simp
  next
    case (Some r0)
    obtain n' r' where rec: "repeat_lit k c r0 = (n', r')"
      by (cases "repeat_lit k c r0")
    from Suc.IH [OF rec] Suc.prems Some rec show ?thesis
      by auto
  qed
qed

lemma poctave_range: "poctave s = (n, r) \<Longrightarrow> n \<le> 7"
  by (auto simp: poctave_def split: prod.splits nat.splits dest!: repeat_lit_count)

lemma ppitch_octave: "ppitch s = Some (p, r) \<Longrightarrow> m_octave p \<le> 7"
  by (auto simp: ppitch_def split: option.splits prod.splits dest: poctave_range)

lemma prest_result: "prest s = Some (c, r) \<Longrightarrow> (\<exists>v. c = Rest v) \<and> length r < length s"
  by (auto simp: prest_def split: option.splits dest!: lit_shorter pvalue_shorter)

lemma pnote_result:
  "pnote s = Some (c, r) \<Longrightarrow> (\<exists>v p. c = Note v p \<and> m_octave p \<le> 7) \<and> length r < length s"
proof -
  assume a: "pnote s = Some (c, r)"
  then obtain p r0 v where pp: "ppitch s = Some (p, r0)" and pv: "pvalue r0 = Some (v, r)"
    and c: "c = Note v p"
    by (auto simp: pnote_def split: option.splits)
  from ppitch_shorter [OF pp] pvalue_shorter [OF pv] ppitch_octave [OF pp] c show ?thesis
    by simp
qed

lemma many_pitch_length: "many_pitch s = (ps, r) \<Longrightarrow> length r \<le> length s"
proof (induction s arbitrary: ps r rule: many_pitch.induct)
  case (1 s)
  show ?case
  proof (cases "ppitch s")
    case None
    with "1.prems" show ?thesis
      by (simp add: many_pitch.simps [of s])
  next
    case (Some a)
    obtain p r0 where a: "a = (p, r0)" by (cases a)
    obtain ps' r' where m: "many_pitch r0 = (ps', r')" by (cases "many_pitch r0")
    from "1.IH" [OF Some a [symmetric] m] ppitch_shorter [of s p r0] Some a m "1.prems"
    show ?thesis
      by (simp add: many_pitch.simps [of s])
  qed
qed

lemma many_pitch_octave: "many_pitch s = (ps, r) \<Longrightarrow> list_all (\<lambda>p. m_octave p \<le> 7) ps"
proof (induction s arbitrary: ps r rule: many_pitch.induct)
  case (1 s)
  show ?case
  proof (cases "ppitch s")
    case None
    with "1.prems" show ?thesis
      by (simp add: many_pitch.simps [of s])
  next
    case (Some a)
    obtain p r0 where a: "a = (p, r0)" by (cases a)
    obtain ps' r' where m: "many_pitch r0 = (ps', r')" by (cases "many_pitch r0")
    from "1.IH" [OF Some a [symmetric] m] ppitch_octave [of s p r0] Some a m "1.prems"
    show ?thesis
      by (auto simp: many_pitch.simps [of s])
  qed
qed

lemma pchord_result:
  "pchord s = Some (c, r) \<Longrightarrow>
   (\<exists>v ps. c = Chord v ps \<and> ps \<noteq> [] \<and> list_all (\<lambda>p. m_octave p \<le> 7) ps) \<and>
   length r < length s"
proof -
  assume a: "pchord s = Some (c, r)"
  then obtain r1 p ps r2 r3 v where l1: "lit CHR ''<'' s = Some r1"
    and m: "many_pitch r1 = (p # ps, r2)" and l3: "lit CHR ''>'' r2 = Some r3"
    and pv: "pvalue r3 = Some (v, r)" and c: "c = Chord v (p # ps)"
    by (auto simp: pchord_def split: option.splits prod.splits list.splits)
  from lit_shorter [OF l1] many_pitch_length [OF m] lit_shorter [OF l3] pvalue_shorter [OF pv]
  have "length r < length s" by simp
  with many_pitch_octave [OF m] c show ?thesis by simp
qed

lemma constructible_all_iff: "constructible_all cs \<longleftrightarrow> list_all constructible cs"
  by (induction cs) simp_all

lemma tuplet_free_all_iff: "tuplet_free_all cs \<longleftrightarrow> list_all tuplet_free cs"
  by (induction cs) simp_all

lemma grammar_shaped_all_iff: "grammar_shaped_all cs \<longleftrightarrow> list_all grammar_shaped cs"
  by (induction cs) simp_all

lemma construct_column_parsed:
  "parsed c \<Longrightarrow> construct_column (Some (c, r)) = Inr (Some (c, r))"
  by (simp add: construct_column_def parsed_def copy_variant_id)

lemma beam_result:
  "beam cs = Inr b \<Longrightarrow> cs \<noteq> [] \<Longrightarrow> list_all parsed cs \<Longrightarrow> parsed b"
  by (auto simp: beam_def and_then_def parsed_def constructible_all_iff tuplet_free_all_iff
      grammar_shaped_all_iff
      list_all_iff split: sum.splits)

lemma column_p_shorter:
  "column_p s = Inr (Some (c, r)) \<Longrightarrow> parsed c \<and> length r < length s"
  "pbeam s = Inr (Some (c, r)) \<Longrightarrow> parsed c \<and> length r < length s"
  "many_column s = Inr (cs, r) \<Longrightarrow> list_all parsed cs \<and> length r \<le> length s"
proof (induction s and s and s arbitrary: c r and c r and cs r
    rule: column_p_pbeam_many_column.induct)
  case (1 s)
  show ?case
  proof (cases "prest s")
    case (Some a)
    obtain c0 r0 where a: "a = (c0, r0)" by (cases a)
    from prest_result [of s c0 r0] Some a have p: "parsed c0" and l: "length r0 < length s"
      by (auto simp: parsed_def)
    from "1.prems" Some a construct_column_parsed [OF p, of r0] l p show ?thesis
      by (simp add: column_p.simps [of s])
  next
    case None
    note nr = None
    show ?thesis
    proof (cases "pnote s")
      case (Some a)
      obtain c0 r0 where a: "a = (c0, r0)" by (cases a)
      from pnote_result [of s c0 r0] Some a have p: "parsed c0" and l: "length r0 < length s"
        by (auto simp: parsed_def)
      from "1.prems" nr Some a construct_column_parsed [OF p, of r0] l p show ?thesis
        by (simp add: column_p.simps [of s])
    next
      case None
      note nn = None
      show ?thesis
      proof (cases "pchord s")
        case (Some a)
        obtain c0 r0 where a: "a = (c0, r0)" by (cases a)
        from pchord_result [of s c0 r0] Some a have p: "parsed c0" and l: "length r0 < length s"
          by (auto simp: parsed_def)
        from "1.prems" nr nn Some a construct_column_parsed [OF p, of r0] l p show ?thesis
          by (simp add: column_p.simps [of s])
      next
        case None
        from "1.prems" nr nn None have e: "and_then (pbeam s) construct_column = Inr (Some (c, r))"
          by (simp add: column_p.simps [of s])
        then obtain c0 r0 where b: "pbeam s = Inr (Some (c0, r0))"
          by (cases "pbeam s") (auto simp: construct_column_def split: option.splits)
        from "1.IH" [OF nr nn None b] have p: "parsed c0" and l: "length r0 < length s"
          by simp_all
        from e b construct_column_parsed [OF p, of r0] p l show ?thesis
          by simp
      qed
    qed
  qed
next
  case (2 s)
  note "2.prems" [unfolded pbeam.simps [of s]]
  note prems2 = this
  from prems2 obtain r1 where l1: "lit CHR ''['' s = Some r1"
    by (cases "lit CHR ''['' s") simp_all
  from prems2 l1 obtain cs r2 where m: "many_column r1 = Inr (cs, r2)"
    by (cases "many_column r1") auto
  from prems2 l1 m have ne: "cs \<noteq> []"
    by (auto split: if_splits)
  from prems2 l1 m ne obtain b where b: "beam cs = Inr b"
    by (cases "beam cs") auto
  from prems2 l1 m ne b have l3: "lit CHR '']'' r2 = Some r" and c: "c = b"
    by (auto split: option.splits)
  from "2.IH" [OF l1 m] have ps: "list_all parsed cs" and l2: "length r2 \<le> length r1"
    by simp_all
  from beam_result [OF b ne ps] c lit_shorter [OF l1] lit_shorter [OF l3] l2 show ?case
    by simp
next
  case (3 s)
  note prems3 = "3.prems" [unfolded many_column.simps [of s]]
  from prems3 obtain a where a: "column_p s = Inr a"
    by (cases "column_p s") auto
  show ?case
  proof (cases a)
    case None
    with prems3 a show ?thesis by simp
  next
    case (Some p)
    obtain c0 r0 where p: "p = (c0, r0)" by (cases p)
    from "3.IH"(1) [of c0 r0] a Some p have pc: "parsed c0" and l: "length r0 < length s"
      by simp_all
    from prems3 a Some p l obtain cs' where m: "many_column r0 = Inr (cs', r)" and cs: "cs = c0 # cs'"
      by (cases "many_column r0") auto
    from "3.IH"(2) [OF l m] pc cs l show ?thesis
      by simp
  qed
qed

lemma parse_result:
  "parse s = Inr c \<Longrightarrow> \<exists>r. column_p s = Inr (Some (c, r)) \<and> skip_over r = [] \<and> parsed c"
proof -
  assume a: "parse s = Inr c"
  then obtain c0 r where cp: "column_p s = Inr (Some (c0, r))" and sk: "skip_over r = []"
    by (auto simp: parse_def split: sum.splits option.splits if_splits)
  from column_p_shorter(1) [OF cp] have p: "parsed c0" by simp
  with a cp sk have "c = c0"
    by (simp add: parse_def parsed_def copy_variant_id)
  with cp sk p show ?thesis by simp
qed

text \<open>
  The test of \<open>many_column\<close> for consumed input always succeeds: the loop is the plain
  loop of \<^verbatim>\<open>+column\<close>.
\<close>

lemma many_column_unguarded:
  "many_column s =
     and_then (column_p s) (\<lambda>a.
       case a of
         None \<Rightarrow> Inr ([], s)
       | Some (c, r) \<Rightarrow> and_then (many_column r) (\<lambda>(cs, r'). Inr (c # cs, r')))"
proof (cases "column_p s")
  case (Inl e)
  then show ?thesis by (simp add: many_column.simps [of s])
next
  case (Inr a)
  show ?thesis
  proof (cases a)
    case None
    with Inr show ?thesis by (simp add: many_column.simps [of s])
  next
    case (Some p)
    obtain c r where p: "p = (c, r)" by (cases p)
    from column_p_shorter(1) [of s c r] Inr Some p have "length r < length s" by simp
    with Inr Some p show ?thesis by (simp add: many_column.simps [of s])
  qed
qed

text \<open>
  Claim C4: for every input, \<open>parse\<close> fails or returns a column all of whose beams passed
  validation, and then the grammar matched and only white space followed the match. When
  the grammar does not match, the error is ``parse error''; when it matches and leaves
  input other than white space, the error is ``incomplete parse'', a different error; an
  exception of a beam's constructor leaves \<open>parse\<close> as it is. For \<open>c4 d4\<close> the error is
  ``incomplete parse''.
\<close>

theorem parse_outcomes:
  "((\<exists>e. parse s = Inl e) \<or> (\<exists>c. parse s = Inr c \<and> constructible c)) \<and>
   (\<forall>c. parse s = Inr c \<longrightarrow>
      constructible c \<and> (\<exists>r. column_p s = Inr (Some (c, r)) \<and> skip_over r = [])) \<and>
   (column_p s = Inr None \<longrightarrow> parse s = Inl (RuntimeError ''parse error'')) \<and>
   (\<forall>c r. column_p s = Inr (Some (c, r)) \<and> skip_over r \<noteq> [] \<longrightarrow>
      parse s = Inl (RuntimeError ''incomplete parse'')) \<and>
   (\<forall>e. column_p s = Inl e \<longrightarrow> parse s = Inl e) \<and>
   RuntimeError ''parse error'' \<noteq> RuntimeError ''incomplete parse'' \<and>
   parse ''c4 d4'' = Inl (RuntimeError ''incomplete parse'')"
proof -
  have r: "constructible c \<and> (\<exists>r. column_p s = Inr (Some (c, r)) \<and> skip_over r = [])"
    if "parse s = Inr c" for c
    using parse_result [OF that] by (auto simp: parsed_def)
  have t: "(\<exists>e. parse s = Inl e) \<or> (\<exists>c. parse s = Inr c \<and> constructible c)"
    using r by (cases "parse s") auto
  have x: "parse ''c4 d4'' = Inl (RuntimeError ''incomplete parse'')"
    by code_simp
  have n: "parse s = Inl (RuntimeError ''parse error'')" if "column_p s = Inr None"
    using that by (simp add: parse_def)
  have i: "parse s = Inl (RuntimeError ''incomplete parse'')"
    if "column_p s = Inr (Some (c, r)) \<and> skip_over r \<noteq> []" for c r
    using that by (simp add: parse_def)
  have e: "parse s = Inl e" if "column_p s = Inl e" for e
    using that by (simp add: parse_def)
  from r t x n i e show ?thesis
    by blast
qed

theorem parse_outcomes_witness:
  "parse ''[c8 d'8.]'' = Inr (Beam [Note eighth (Pitch pc_c 4), Note (dot eighth) (Pitch pc_d 5)]) \<and>
   constructible (Beam [Note eighth (Pitch pc_c 4), Note (dot eighth) (Pitch pc_d 5)]) \<and>
   column_p ''x4'' = Inr None \<and>
   parse ''x4'' = Inl (RuntimeError ''parse error'') \<and>
   column_p ''c4 d4'' = Inr (Some (Note quarter (Pitch pc_c 4), '' d4'')) \<and>
   parse ''c4 d4'' = Inl (RuntimeError ''incomplete parse'') \<and>
   column_p ''[c4]'' = Inl (InvalidBeam ''must contain at least two values'') \<and>
   parse ''[c4]'' = Inl (InvalidBeam ''must contain at least two values'')"
proof -
  have 1: "parse ''[c8 d'8.]'' =
      Inr (Beam [Note eighth (Pitch pc_c 4), Note (dot eighth) (Pitch pc_d 5)])"
    by code_simp
  have 2: "column_p ''x4'' = Inr None"
    by code_simp
  have 3: "column_p ''c4 d4'' = Inr (Some (Note quarter (Pitch pc_c 4), '' d4''))"
    by code_simp
  have 4: "column_p ''[c4]'' = Inl (InvalidBeam ''must contain at least two values'')"
    by code_simp
  from parse_outcomes [of "''[c8 d'8.]''"] parse_outcomes [of "''x4''"]
    parse_outcomes [of "''c4 d4''"] parse_outcomes [of "''[c4]''"] 1 2 3 4
  show ?thesis
    by (simp add: skip_over_def is_space_def)
qed

text \<open>
  Claim C6: a column that \<open>parse\<close> returns is not a tuplet and holds no tuplet at any
  depth: the alternatives of the grammar are a rest, a note, a chord and a beam of
  columns.
\<close>

theorem parse_no_tuplet:
  assumes "parse s = Inr c"
  shows "(\<forall>v es. c \<noteq> Tuplet v es) \<and> tuplet_free c"
proof -
  from parse_result [OF assms] have "tuplet_free c"
    by (auto simp: parsed_def)
  then show ?thesis
    by (cases c) simp_all
qed

theorem parse_no_tuplet_witness:
  "parse ''[c8 [d8 <e g>8]]'' =
     Inr (Beam [Note eighth (Pitch pc_c 4),
       Beam [Note eighth (Pitch pc_d 4), Chord eighth [Pitch pc_e 4, Pitch pc_g 4]]]) \<and>
   tuplet_free (Beam [Note eighth (Pitch pc_c 4),
       Beam [Note eighth (Pitch pc_d 4), Chord eighth [Pitch pc_e 4, Pitch pc_g 4]]])"
proof -
  have p: "parse ''[c8 [d8 <e g>8]]'' =
     Inr (Beam [Note eighth (Pitch pc_c 4),
       Beam [Note eighth (Pitch pc_d 4), Chord eighth [Pitch pc_e 4, Pitch pc_g 4]]])"
    by code_simp
  from parse_no_tuplet [OF p] p show ?thesis
    by simp
qed

section \<open>Parsing what the debug writer wrote\<close>

text \<open>
  Claim C5, as the spec states it: writing the column parsed from a text and parsing
  what was written gives the column back. For the rest \<open>r4\<close> the writer gives \<open>r:4\<close>, which
  the grammar does not match.
\<close>

theorem round_trip_rest_counterexample:
  "parse ''r4'' = Inr (Rest quarter) \<and>
   writer (Rest quarter) = Inr ''r:4'' \<and>
   round_trip ''r4'' = Inl (RuntimeError ''parse error'') \<and>
   round_trip ''r4'' \<noteq> parse ''r4''"
proof -
  have 1: "parse ''r4'' = Inr (Rest quarter)"
    by code_simp
  have 2: "writer (Rest quarter) = Inr ''r:4''"
    by code_simp
  have 3: "parse ''r:4'' = Inl (RuntimeError ''parse error'')"
    by code_simp
  from 1 2 3 show ?thesis
    by (simp add: round_trip_def)
qed

lemma lit_Cons:
  "lit c (x # t) = (if is_space x then lit c t else if x = c then Some t else None)"
  by (simp add: lit_def skip_over_def)

lemma skip_over_Cons:
  "skip_over (x # t) = (if is_space x then skip_over t else x # t)"
  by (simp add: skip_over_def)

lemma symbols_name:
  "x \<noteq> CHR ''f'' \<Longrightarrow> x \<noteq> CHR ''s'' \<Longrightarrow>
   symbols pitchclass_symbols (pitchclass_names pc @ x # t) = Some (pc, x # t)"
  by (cases pc) (simp_all add: symbols_def pitchclass_symbols_def skip_over_Cons is_space_def)

lemma symbols_pitchclass_none:
  "x \<notin> set ''abcdefg'' \<Longrightarrow> \<not> is_space x \<Longrightarrow> symbols pitchclass_symbols (x # t) = None"
  by (simp add: symbols_def pitchclass_symbols_def skip_over_Cons)

lemma symbols_basevalue_none:
  "x \<notin> set ''123468'' \<Longrightarrow> \<not> is_space x \<Longrightarrow> symbols basevalue (x # t) = None"
  by (simp add: symbols_def basevalue_def skip_over_Cons)

lemma poctave_other:
  "x \<noteq> CHR 0x27 \<Longrightarrow> x \<noteq> CHR '','' \<Longrightarrow> \<not> is_space x \<Longrightarrow> poctave (x # t) = (4, x # t)"
  by (simp add: poctave_def eval_nat_numeral lit_Cons)

lemma pvalue_colon:
  "pvalue (x # CHR '':'' # t) = None \<or> (\<exists>v. pvalue (x # CHR '':'' # t) = Some (v, CHR '':'' # t))"
  by (simp add: pvalue_def symbols_def basevalue_def skip_over_Cons is_space_def
      eval_nat_numeral lit_Cons)

lemma name_first:
  "\<exists>y ys. pitchclass_names pc = y # ys \<and> y \<in> set ''abcdefg''"
  by (cases pc) simp_all

lemma column_p_colon: "column_p (CHR '':'' # t) = Inr None"
  by (simp add: column_p.simps pbeam.simps prest_def pnote_def pchord_def ppitch_def lit_Cons
      is_space_def symbols_pitchclass_none construct_column_def)

lemma column_p_rest_text: "column_p (CHR ''r'' # CHR '':'' # t) = Inr None"
  by (simp add: column_p.simps pbeam.simps prest_def pnote_def pchord_def ppitch_def pvalue_def
      lit_Cons is_space_def symbols_pitchclass_none symbols_basevalue_none construct_column_def)

lemma to_string_small: "n < 10 \<Longrightarrow> to_string n = [digit n]"
  by (simp add: to_string.simps [of n])

lemma digit_octave: "n \<le> 7 \<Longrightarrow> octave_digit (digit n) \<and> to_string (n mod 256) = [digit n]"
proof -
  assume n: "n \<le> 7"
  then have "octave_digit (digit n)"
    by (auto simp: octave_digit_def digit_def le_Suc_eq eval_nat_numeral)
  with n show ?thesis
    by (simp add: to_string_small)
qed

lemma ppitch_name:
  assumes "octave_digit x"
  shows "ppitch (pitchclass_names pc @ x # t) = Some (Pitch pc 4, x # t)"
proof -
  from assms have x: "x \<noteq> CHR ''f''" "x \<noteq> CHR ''s''" "x \<noteq> CHR 0x27" "x \<noteq> CHR '',''"
    "\<not> is_space x"
    by (auto simp: octave_digit_def is_space_def)
  show ?thesis
    by (simp add: ppitch_def symbols_name [OF x(1,2)] poctave_other [OF x(3,4,5)])
qed

lemma ppitch_digit:
  assumes "octave_digit x"
  shows "ppitch (x # t) = None"
proof -
  from assms have "x \<notin> set ''abcdefg''" "\<not> is_space x"
    by (auto simp: octave_digit_def is_space_def)
  then show ?thesis
    by (simp add: ppitch_def symbols_pitchclass_none)
qed

lemma lit_name:
  assumes "c \<notin> set ''abcdefg''"
  shows "lit c (pitchclass_names pc @ t) = None"
proof -
  from name_first [of pc] obtain y ys where n: "pitchclass_names pc = y # ys"
    and y: "y \<in> set ''abcdefg''"
    by blast
  from y have "\<not> is_space y" by (auto simp: is_space_def)
  with y assms show ?thesis
    by (auto simp: n lit_Cons)
qed

lemma column_p_note_text:
  assumes "octave_digit x"
  shows "column_p (pitchclass_names pc @ x # CHR '':'' # t) = Inr None \<or>
     (\<exists>v. column_p (pitchclass_names pc @ x # CHR '':'' # t) =
        Inr (Some (Note v (Pitch pc 4), CHR '':'' # t)))"
proof -
  let ?s = "pitchclass_names pc @ x # CHR '':'' # t"
  have r: "prest ?s = None"
    by (simp add: prest_def lit_name)
  have c: "pchord ?s = None"
    by (simp add: pchord_def lit_name)
  have b: "pbeam ?s = Inr None"
    by (simp add: pbeam.simps [of ?s] lit_name)
  from pvalue_colon [of x t] show ?thesis
  proof
    assume "pvalue (x # CHR '':'' # t) = None"
    then have "pnote ?s = None"
      by (simp add: pnote_def ppitch_name [OF assms])
    with r c b show ?thesis
      by (simp add: column_p.simps [of ?s] construct_column_def)
  next
    assume "\<exists>v. pvalue (x # CHR '':'' # t) = Some (v, CHR '':'' # t)"
    then obtain v where "pvalue (x # CHR '':'' # t) = Some (v, CHR '':'' # t)" ..
    then have "pnote ?s = Some (Note v (Pitch pc 4), CHR '':'' # t)"
      by (simp add: pnote_def ppitch_name [OF assms])
    with r show ?thesis
      by (simp add: column_p.simps [of ?s] construct_column_def)
  qed
qed

lemma many_pitch_name:
  assumes "octave_digit x"
  shows "many_pitch (pitchclass_names pc @ x # t) = ([Pitch pc 4], x # t)"
  by (simp add: many_pitch.simps [of "pitchclass_names pc @ x # t"] ppitch_name [OF assms]
      many_pitch.simps [of "x # t"] ppitch_digit [OF assms])

lemma column_p_chord_text:
  assumes "octave_digit x"
  shows "column_p (CHR ''<'' # pitchclass_names pc @ x # t) = Inr None"
proof -
  let ?s = "CHR ''<'' # pitchclass_names pc @ x # t"
  from assms have x: "x \<noteq> CHR ''>''" "\<not> is_space x"
    by (auto simp: octave_digit_def is_space_def)
  have r: "prest ?s = None"
    by (simp add: prest_def lit_Cons is_space_def)
  have n: "pnote ?s = None"
    by (simp add: pnote_def ppitch_def symbols_pitchclass_none is_space_def)
  have c: "pchord ?s = None"
    using x by (simp add: pchord_def lit_Cons is_space_def many_pitch_name [OF assms])
  have b: "pbeam ?s = Inr None"
    by (simp add: pbeam.simps [of ?s] lit_Cons is_space_def)
  from r n c b show ?thesis
    by (simp add: column_p.simps [of ?s] construct_column_def)
qed

lemma column_p_beam_text:
  "column_p (CHR ''['' # t) =
     and_then (many_column t) (\<lambda>(cs, r2).
       if cs = [] then Inr None
       else and_then (beam cs) (\<lambda>b.
         case lit (CHR '']'') r2 of
           None \<Rightarrow> Inr None
         | Some r3 \<Rightarrow> construct_column (Some (b, r3))))"
proof -
  let ?s = "CHR ''['' # t"
  have r: "prest ?s = None"
    by (simp add: prest_def lit_Cons is_space_def)
  have n: "pnote ?s = None"
    by (simp add: pnote_def ppitch_def symbols_pitchclass_none is_space_def)
  have c: "pchord ?s = None"
    by (simp add: pchord_def lit_Cons is_space_def)
  have b: "column_p ?s = and_then (pbeam ?s) construct_column"
    using r n c by (simp add: column_p.simps [of ?s])
  show ?thesis
    unfolding b
    by (cases "many_column t")
       (auto simp: pbeam.simps [of ?s] lit_Cons is_space_def construct_column_def
          split: prod.splits option.splits sum.splits if_splits simp: and_then_def)
qed

lemma many_column_colon: "many_column (CHR '':'' # t) = Inr ([], CHR '':'' # t)"
  by (simp add: many_column_unguarded [of "CHR '':'' # t"] column_p_colon)

lemma beam_single_note: "\<exists>m. beam [Note v p] = Inl (InvalidBeam m)"
  by (simp add: beam_def beam_validate_def)

lemma fold_pitches_prefix:
  "foldl (\<lambda>res p. res @ write_pitch p @ '' '') acc ps =
   acc @ foldl (\<lambda>res p. res @ write_pitch p @ '' '') [] ps"
proof (induction ps arbitrary: acc)
  case Nil
  then show ?case by simp
next
  case (Cons p ps)
  from Cons [of "acc @ write_pitch p @ '' ''"] Cons [of "write_pitch p @ '' ''"]
  show ?case by simp
qed

lemma writer_elements_prefix:
  "writer_elements es acc = Inr r \<Longrightarrow> \<exists>z. r = acc @ z"
proof (induction es arbitrary: acc r)
  case Nil
  then show ?case by simp
next
  case (Cons e es)
  from Cons.prems obtain w where w: "writer e = Inr w"
    and r: "writer_elements es (acc @ w @ '' '') = Inr r"
    by (cases "writer e") auto
  from Cons.IH [OF r] show ?case by auto
qed

lemma writer_rest_text: "writer (Rest v) = Inr (CHR ''r'' # CHR '':'' # write_value v)"
  by simp

lemma writer_note_text:
  assumes "m_octave p \<le> 7"
  shows "writer (Note v p) =
     Inr (pitchclass_names (m_pitchclass p) @ digit (m_octave p) # CHR '':'' # write_value v)"
  using digit_octave [OF assms] by (simp add: write_pitch_def)

lemma writer_chord_text:
  assumes "m_octave p \<le> 7"
  shows "\<exists>y. writer (Chord v (p # ps)) =
     Inr (CHR ''<'' # pitchclass_names (m_pitchclass p) @ digit (m_octave p) # y)"
proof -
  let ?f = "\<lambda>res p. res @ write_pitch p @ '' ''"
  obtain z where z: "foldl ?f [] ps = z" by simp
  have "foldl ?f [] (p # ps) = write_pitch p @ CHR '' '' # z"
    using fold_pitches_prefix [of "write_pitch p @ '' ''" ps] z by simp
  then have "resize_minus_one (foldl ?f [] (p # ps)) = Inr (write_pitch p @ butlast (CHR '' '' # z))"
    by (simp add: resize_minus_one_def butlast_append)
  with digit_octave [OF assms] show ?thesis
    by (simp add: write_pitch_def)
qed

lemma writer_beam_text:
  assumes "writer (Beam (e # es)) = Inr w"
  shows "\<exists>we y. writer e = Inr we \<and> w = CHR ''['' # we @ y"
proof -
  from assms obtain we where we: "writer e = Inr we"
    by (cases "writer e") auto
  from assms we obtain acc where acc: "writer_elements es (we @ '' '') = Inr acc"
    by (cases "writer_elements es (we @ '' '')") auto
  from writer_elements_prefix [OF acc] obtain z where z: "acc = (we @ '' '') @ z"
    by blast
  have "butlast acc = we @ butlast (CHR '' '' # z)"
    unfolding z by (simp add: butlast_append)
  with assms we acc z have "w = CHR ''['' # we @ butlast (CHR '' '' # z) @ '']''"
    by (simp add: resize_minus_one_def)
  with we show ?thesis by blast
qed

lemma writer_elements_nonempty:
  "writer_elements (e # es) acc = Inr w \<Longrightarrow> w \<noteq> []"
proof -
  assume a: "writer_elements (e # es) acc = Inr w"
  then obtain we where we: "writer e = Inr we"
    and r: "writer_elements es (acc @ we @ '' '') = Inr w"
    by (cases "writer e") auto
  from writer_elements_prefix [OF r] show ?thesis by auto
qed

lemma writer_succeeds:
  "grammar_shaped c \<Longrightarrow> \<exists>w. writer c = Inr w"
  "grammar_shaped_all cs \<Longrightarrow> \<exists>w. writer_elements cs acc = Inr w"
proof (induction c and cs arbitrary: and acc rule: grammar_shaped_grammar_shaped_all.induct)
  case (1 v)
  show ?case by simp
next
  case (2 v p)
  show ?case by simp
next
  case (3 v ps)
  then obtain p ps' where ps: "ps = p # ps'"
    by (cases ps) auto
  let ?f = "\<lambda>res p. res @ write_pitch p @ '' ''"
  have "foldl ?f [] (p # ps') = (write_pitch p @ '' '') @ foldl ?f [] ps'"
    using fold_pitches_prefix [of "write_pitch p @ '' ''" ps'] by simp
  then have "foldl ?f [] ps \<noteq> []"
    unfolding ps by simp
  then show ?case
    by (simp add: resize_minus_one_def)
next
  case (4 es)
  then obtain e es' where es: "es = e # es'"
    by (cases es) auto
  from "4.prems" have "grammar_shaped_all es" by simp
  from "4.IH" [OF this, of "[]"] obtain w where w: "writer_elements es [] = Inr w" ..
  from writer_elements_nonempty [of e es' "[]" w] w es have "w \<noteq> []" by simp
  with w show ?case
    by (simp add: resize_minus_one_def)
next
  case (5 v es)
  then show ?case by simp
next
  case 6
  show ?case by simp
next
  case (7 c cs)
  from "7.prems" have c: "grammar_shaped c" and cs: "grammar_shaped_all cs" by simp_all
  from "7.IH"(1) [OF c] obtain w where w: "writer c = Inr w" ..
  from "7.IH"(2) [OF cs, of "acc @ w @ '' ''"] w show ?case
    by simp
qed

lemma stuck_simps:
  "stuck (Inl e)" "stuck (Inr None)" "stuck (Inr (Some (Note v p, CHR '':'' # t)))"
  by (simp_all add: stuck_def)

lemma stuck_cases:
  assumes "stuck a"
  shows "(\<exists>e. a = Inl e) \<or> a = Inr None \<or>
     (\<exists>v p t. a = Inr (Some (Note v p, CHR '':'' # t)))"
proof (cases a)
  case (Inl e)
  then show ?thesis by simp
next
  case (Inr x)
  show ?thesis
  proof (cases x)
    case None
    with Inr show ?thesis by simp
  next
    case (Some pr)
    obtain c r where pr: "pr = (c, r)" by (cases pr)
    from assms Inr Some pr show ?thesis
      by (cases c; cases r) (simp_all add: stuck_def)
  qed
qed

lemma reparse_stuck:
  "grammar_shaped c \<Longrightarrow> writer c = Inr w \<Longrightarrow> stuck (column_p (w @ y))"
proof (induction c arbitrary: w y)
  case (Rest v)
  then show ?case
    by (auto simp: column_p_rest_text stuck_simps)
next
  case (Note v p)
  from Note.prems(1) have o: "m_octave p \<le> 7" by simp
  from digit_octave [OF o] have d: "octave_digit (digit (m_octave p))" by simp
  from Note.prems(2) writer_note_text [OF o, of v]
  have w: "w @ y = pitchclass_names (m_pitchclass p) @ digit (m_octave p) # CHR '':'' #
      (write_value v @ y)"
    by simp
  from column_p_note_text [OF d, of "m_pitchclass p" "write_value v @ y"] show ?case
    unfolding w by (auto simp: stuck_simps)
next
  case (Chord v ps)
  from Chord.prems(1) obtain p ps' where ps: "ps = p # ps'" and o: "m_octave p \<le> 7"
    by (cases ps) auto
  from digit_octave [OF o] have d: "octave_digit (digit (m_octave p))" by simp
  from writer_chord_text [OF o, of v ps'] Chord.prems(2) ps obtain z where
    w: "w = CHR ''<'' # pitchclass_names (m_pitchclass p) @ digit (m_octave p) # z"
    by auto
  from column_p_chord_text [OF d, of "m_pitchclass p" "z @ y"] show ?case
    unfolding w by (simp add: stuck_simps)
next
  case (Beam es)
  from Beam.prems(1) obtain e es' where es: "es = e # es'" and ge: "grammar_shaped e"
    by (cases es) auto
  from writer_beam_text [of e es' w] Beam.prems(2) es obtain we z where
    we: "writer e = Inr we" and w: "w = CHR ''['' # we @ z"
    by auto
  have "e \<in> set es" using es by simp
  from Beam.IH [OF this ge we, of "z @ y"] have st: "stuck (column_p (we @ z @ y))" .
  have m: "(\<exists>e'. many_column (we @ z @ y) = Inl e') \<or>
           (\<exists>r. many_column (we @ z @ y) = Inr ([], r)) \<or>
           (\<exists>v p r. many_column (we @ z @ y) = Inr ([Note v p], r))"
    using stuck_cases [OF st]
    by (auto simp: many_column_unguarded [of "we @ z @ y"] many_column_colon)
  have "column_p (CHR ''['' # we @ z @ y) = Inr None \<or>
        (\<exists>e'. column_p (CHR ''['' # we @ z @ y) = Inl e')"
    using m beam_single_note
    by (auto simp: column_p_beam_text) (metis and_then_Inl)
  then show ?case
    unfolding w by (auto simp: stuck_simps)
next
  case (Tuplet v es)
  then show ?case by simp
qed

lemma parse_stuck:
  assumes "stuck (column_p s)"
  shows "\<exists>e. parse s = Inl e"
  using stuck_cases [OF assms]
  by (auto simp: parse_def skip_over_Cons is_space_def)

text \<open>
  Claim C5, amended: for every source text that \<open>parse\<close> accepts, the debug writer
  formats the parsed column, and parsing the formatted string fails, so the round trip
  never gives the column back: the writer separates the value by a colon and prints the
  octave as a number, which the grammar does not accept. The texts \<open>r4\<close>, \<open>c'4\<close> and
  \<open><c e g>4\<close> are written as \<open>r:4\<close>, \<open>c5:4\<close> and \<open><c4 e4 g4>:4\<close>, which give ``parse
  error'', and \<open>[c8 d8]\<close> is written as \<open>[c4:8 d4:8]\<close>, in which the grammar reads a
  beam of the single note \<open>c4\<close>, which the beam's constructor rejects.
\<close>

theorem round_trip_fails:
  assumes "parse s = Inr c"
  shows "(\<exists>w e. writer c = Inr w \<and> parse w = Inl e \<and> round_trip s = Inl e) \<and>
     and_then (parse ''r4'') writer = Inr ''r:4'' \<and>
     round_trip ''r4'' = Inl (RuntimeError ''parse error'') \<and>
     and_then (parse ''c'4'') writer = Inr ''c5:4'' \<and>
     round_trip ''c'4'' = Inl (RuntimeError ''parse error'') \<and>
     and_then (parse ''<c e g>4'') writer = Inr ''<c4 e4 g4>:4'' \<and>
     round_trip ''<c e g>4'' = Inl (RuntimeError ''parse error'') \<and>
     and_then (parse ''[c8 d8]'') writer = Inr ''[c4:8 d4:8]'' \<and>
     round_trip ''[c8 d8]'' = Inl (InvalidBeam ''must contain at least two values'')"
proof -
  from parse_result [OF assms] have g: "grammar_shaped c"
    by (auto simp: parsed_def)
  from writer_succeeds(1) [OF g] obtain w where w: "writer c = Inr w" ..
  from reparse_stuck [OF g w, of "[]"] have "stuck (column_p w)" by simp
  from parse_stuck [OF this] obtain e where "parse w = Inl e" ..
  with assms w have 0: "\<exists>w e. writer c = Inr w \<and> parse w = Inl e \<and> round_trip s = Inl e"
    by (simp add: round_trip_def)
  have 1: "and_then (parse ''r4'') writer = Inr ''r:4''"
    by code_simp
  have 2: "round_trip ''r4'' = Inl (RuntimeError ''parse error'')"
    by code_simp
  have 3: "and_then (parse ''c'4'') writer = Inr ''c5:4''"
    by code_simp
  have 4: "round_trip ''c'4'' = Inl (RuntimeError ''parse error'')"
    by code_simp
  have 5: "and_then (parse ''<c e g>4'') writer = Inr ''<c4 e4 g4>:4''"
    by code_simp
  have 6: "round_trip ''<c e g>4'' = Inl (RuntimeError ''parse error'')"
    by code_simp
  have 7: "and_then (parse ''[c8 d8]'') writer = Inr ''[c4:8 d4:8]''"
    by code_simp
  have 8: "round_trip ''[c8 d8]'' = Inl (InvalidBeam ''must contain at least two values'')"
    by code_simp
  from 0 1 2 3 4 5 6 7 8 show ?thesis
    by blast
qed

theorem round_trip_fails_witness:
  "parse ''[c8. [d,16 <e' g>16]]'' =
     Inr (Beam [Note (dot eighth) (Pitch pc_c 4),
       Beam [Note sixteenth (Pitch pc_d 3), Chord sixteenth [Pitch pc_e 5, Pitch pc_g 4]]]) \<and>
   writer (Beam [Note (dot eighth) (Pitch pc_c 4),
       Beam [Note sixteenth (Pitch pc_d 3), Chord sixteenth [Pitch pc_e 5, Pitch pc_g 4]]]) =
     Inr ''[c4:8. [d3:16 <e5 g4>:16]]'' \<and>
   parse ''[c4:8. [d3:16 <e5 g4>:16]]'' =
     Inl (InvalidBeam ''must contain at least two values'') \<and>
   isl (round_trip ''[c8. [d,16 <e' g>16]]'')"
proof -
  have p: "parse ''[c8. [d,16 <e' g>16]]'' =
     Inr (Beam [Note (dot eighth) (Pitch pc_c 4),
       Beam [Note sixteenth (Pitch pc_d 3), Chord sixteenth [Pitch pc_e 5, Pitch pc_g 4]]])"
    by code_simp
  have w: "writer (Beam [Note (dot eighth) (Pitch pc_c 4),
       Beam [Note sixteenth (Pitch pc_d 3), Chord sixteenth [Pitch pc_e 5, Pitch pc_g 4]]]) =
     Inr ''[c4:8. [d3:16 <e5 g4>:16]]''"
    by code_simp
  have r: "parse ''[c4:8. [d3:16 <e5 g4>:16]]'' =
     Inl (InvalidBeam ''must contain at least two values'')"
    by code_simp
  from round_trip_fails [OF p] p w r show ?thesis
    by auto
qed

end
